theory Spec2Isabelle
  imports Complex_Main
begin

section \<open>Dense vectors and matrices\<close>

text \<open>
  The notebooks work on NumPy arrays of floats. A one-dimensional array is a list of
  reals, a two-dimensional array is the list of its rows, and all arithmetic is exact.
  The operations below are the elementwise and \<open>dot\<close> operations the code uses; they are
  meant for arrays of matching shapes (NumPy raises on the others), and the theorems
  state the shapes they need.
\<close>

type_synonym vec = "real list"
type_synonym mat = "real list list"

definition zeros :: "nat \<Rightarrow> vec" where
  "zeros p = replicate p 0"

definition zeros2 :: "nat \<Rightarrow> nat \<Rightarrow> mat" where
  "zeros2 n p = replicate n (zeros p)"

definition vadd :: "vec \<Rightarrow> vec \<Rightarrow> vec" where
  "vadd a b = map2 (+) a b"

definition vsub :: "vec \<Rightarrow> vec \<Rightarrow> vec" where
  "vsub a b = map2 (-) a b"

definition vneg :: "vec \<Rightarrow> vec" where
  "vneg a = map uminus a"

definition smul :: "real \<Rightarrow> vec \<Rightarrow> vec" where
  "smul c a = map ((*) c) a"

definition sdiv :: "vec \<Rightarrow> real \<Rightarrow> vec" where
  "sdiv a c = map (\<lambda>x. x / c) a"

text \<open>\<open>a.dot(b)\<close> for two one-dimensional arrays.\<close>

definition dot :: "vec \<Rightarrow> vec \<Rightarrow> real" where
  "dot a b = sum_list (map2 (*) a b)"

text \<open>Column \<open>c\<close> of a matrix, and \<open>X.T\<close> for a matrix with \<open>p\<close> columns.\<close>

definition col :: "mat \<Rightarrow> nat \<Rightarrow> vec" where
  "col M c = map (\<lambda>row. row ! c) M"

definition transposed :: "nat \<Rightarrow> mat \<Rightarrow> mat" where
  "transposed p M = map (col M) [0..<p]"

text \<open>\<open>M.dot(v)\<close> (matrix times vector), \<open>v.dot(M)\<close> (vector times matrix, \<open>M\<close> with
  \<open>p\<close> columns) and \<open>A.dot(B)\<close> (matrix product, \<open>B\<close> with \<open>q\<close> columns).\<close>

definition mat_vec :: "mat \<Rightarrow> vec \<Rightarrow> vec" where
  "mat_vec M v = map (\<lambda>row. dot row v) M"

definition vec_mat :: "nat \<Rightarrow> vec \<Rightarrow> mat \<Rightarrow> vec" where
  "vec_mat p v M = map (\<lambda>c. dot v (col M c)) [0..<p]"

definition mat_mul :: "nat \<Rightarrow> mat \<Rightarrow> mat \<Rightarrow> mat" where
  "mat_mul q A B = map (\<lambda>row. vec_mat q row B) A"

text \<open>\<open>np.mean(M, axis=0)\<close>: the mean of the rows, column by column.\<close>

definition mean_axis0 :: "nat \<Rightarrow> mat \<Rightarrow> vec" where
  "mean_axis0 p M = map (\<lambda>c. sum_list (col M c) / real (length M)) [0..<p]"

definition is_mat :: "nat \<Rightarrow> nat \<Rightarrow> mat \<Rightarrow> bool" where
  "is_mat n p M \<longleftrightarrow> length M = n \<and> list_all (\<lambda>row. length row = p) M"

section \<open>The random source\<close>


section \<open>Stochastic gradient descent with averaging\<close>

text \<open>
  The SGD cell of the SVRG/SAGA notebook:
  \<^verbatim>\<open>
  for t in range(max_iter):
      i = np.random.randint(0, n)
      theta = theta - step_size * grad_f(theta, i)
      theta_averaged = (t*theta_averaged + theta)/(t+1)
      if t%(2*n) == 0:
          theta_SGD_history.append(theta)
          f_SGD_history.append(f(theta))
          theta_averaged_history.append(theta_averaged)
          f_averaged_history.append(f(theta_averaged))
  \<close>
  \<open>f\<close> and \<open>grad_f\<close> are the notebook's global oracle of the moment.
\<close>

record 'g sgd_state =
  sgd_theta :: vec
  sgd_theta_averaged :: vec
  sgd_rng :: 'g
  theta_SGD_history :: "vec list"
  f_SGD_history :: "real list"
  theta_averaged_history :: "vec list"
  f_averaged_history :: "real list"

definition sgd_init :: "vec \<Rightarrow> vec \<Rightarrow> 'g \<Rightarrow> 'g sgd_state" where
  "sgd_init theta0 theta_averaged0 g =
     \<lparr> sgd_theta = theta0, sgd_theta_averaged = theta_averaged0, sgd_rng = g,
       theta_SGD_history = [], f_SGD_history = [],
       theta_averaged_history = [], f_averaged_history = [] \<rparr>"

definition sgd_step ::
  "(vec \<Rightarrow> real) \<Rightarrow> (vec \<Rightarrow> nat \<Rightarrow> vec) \<Rightarrow> nat \<Rightarrow> real \<Rightarrow> ('g \<Rightarrow> nat \<times> 'g) \<Rightarrow>
   nat \<Rightarrow> 'g sgd_state \<Rightarrow> 'g sgd_state" where
  "sgd_step f grad_f n step_size randint t s =
     (let (i, g') = randint (sgd_rng s);
          theta = vsub (sgd_theta s) (smul step_size (grad_f (sgd_theta s) i));
          theta_averaged =
            sdiv (vadd (smul (real t) (sgd_theta_averaged s)) theta) (real t + 1);
          s' = s\<lparr> sgd_theta := theta, sgd_theta_averaged := theta_averaged, sgd_rng := g' \<rparr>
      in if t mod (2 * n) = 0
         then s'\<lparr> theta_SGD_history := theta_SGD_history s @ [theta],
                  f_SGD_history := f_SGD_history s @ [f theta],
                  theta_averaged_history := theta_averaged_history s @ [theta_averaged],
                  f_averaged_history := f_averaged_history s @ [f theta_averaged] \<rparr>
         else s')"

text \<open>The state after the first \<open>T\<close> iterations \<open>t = 0, \<dots>, T - 1\<close> of the loop.\<close>

fun sgd_loop ::
  "(vec \<Rightarrow> real) \<Rightarrow> (vec \<Rightarrow> nat \<Rightarrow> vec) \<Rightarrow> nat \<Rightarrow> real \<Rightarrow> ('g \<Rightarrow> nat \<times> 'g) \<Rightarrow>
   'g sgd_state \<Rightarrow> nat \<Rightarrow> 'g sgd_state" where
  "sgd_loop f grad_f n step_size randint s0 0 = s0"
| "sgd_loop f grad_f n step_size randint s0 (Suc t) =
     sgd_step f grad_f n step_size randint t (sgd_loop f grad_f n step_size randint s0 t)"

section \<open>SAGA\<close>

text \<open>
  The SAGA cell (logistic regression; the least-squares cell is the same with every
  right-hand side left as an exercise):
  \<^verbatim>\<open>
  gradients = np.zeros((n,p))
  mean_gradient = np.zeros(p)
  ...
  for t in range(max_iter):
      i = np.random.randint(0, n)
      gradient_i = # TODO
      G = # TODO
      theta = # TODO
      if t%(2*n) == 0:
          theta_history.append(theta)
          f_history.append(f(theta))
      mean_gradient += (1./n) * (gradient_i - gradients[i])
      gradients[i] = gradient_i
  \<close>
  The three right-hand sides left to the student are taken from the notebook's own
  description of the iteration: the gradient of datum \<open>i\<close> at the current point, that gradient minus the stored one
  plus the running mean, and the current point minus the step size times \<open>G\<close>.
\<close>

record 'g saga_state =
  saga_theta :: vec
  gradients :: mat
  mean_gradient :: vec
  saga_rng :: 'g
  saga_theta_history :: "vec list"
  saga_f_history :: "real list"

definition saga_init :: "nat \<Rightarrow> nat \<Rightarrow> vec \<Rightarrow> 'g \<Rightarrow> 'g saga_state" where
  "saga_init n p theta0 g =
     \<lparr> saga_theta = theta0, gradients = zeros2 n p, mean_gradient = zeros p,
       saga_rng = g, saga_theta_history = [], saga_f_history = [] \<rparr>"

definition saga_step ::
  "(vec \<Rightarrow> real) \<Rightarrow> (vec \<Rightarrow> nat \<Rightarrow> vec) \<Rightarrow> nat \<Rightarrow> real \<Rightarrow> ('g \<Rightarrow> nat \<times> 'g) \<Rightarrow>
   nat \<Rightarrow> 'g saga_state \<Rightarrow> 'g saga_state" where
  "saga_step f grad_f n step_size randint t s =
     (let (i, g') = randint (saga_rng s);
          gradient_i = grad_f (saga_theta s) i;
          G = vadd (vsub gradient_i (gradients s ! i)) (mean_gradient s);
          theta = vsub (saga_theta s) (smul step_size G);
          s1 = (if t mod (2 * n) = 0
                then s\<lparr> saga_theta_history := saga_theta_history s @ [theta],
                        saga_f_history := saga_f_history s @ [f theta] \<rparr>
                else s)
      in s1\<lparr> saga_theta := theta, saga_rng := g',
             mean_gradient :=
               vadd (mean_gradient s) (smul (1 / real n) (vsub gradient_i (gradients s ! i))),
             gradients := (gradients s)[i := gradient_i] \<rparr>)"

fun saga_loop ::
  "(vec \<Rightarrow> real) \<Rightarrow> (vec \<Rightarrow> nat \<Rightarrow> vec) \<Rightarrow> nat \<Rightarrow> real \<Rightarrow> ('g \<Rightarrow> nat \<times> 'g) \<Rightarrow>
   'g saga_state \<Rightarrow> nat \<Rightarrow> 'g saga_state" where
  "saga_loop f grad_f n step_size randint s0 0 = s0"
| "saga_loop f grad_f n step_size randint s0 (Suc t) =
     saga_step f grad_f n step_size randint t (saga_loop f grad_f n step_size randint s0 t)"

section \<open>The objective oracles\<close>

text \<open>
  Least squares (the same cell appears in the SVRG and in the SAGA part):
  \<^verbatim>\<open>
  def f(theta):
      return 0.5 * np.linalg.norm(y - X.dot(theta))**2
  def full_grad_f(theta):
      return - X.T.dot(y - X.dot(theta))
  def grad_f(theta, i):
      return - X[i]*(y[i] - X[i].dot(theta))
  \<close>
  \<open>X\<close> (with \<open>n\<close> rows and \<open>p\<close> columns) and \<open>y\<close> are globals of the notebook; they are
  parameters here.
\<close>

definition norm2 :: "vec \<Rightarrow> real" where
  "norm2 v = sqrt (sum_list (map (\<lambda>x. \<bar>x\<bar> ^ 2) v))"

definition ls_f :: "mat \<Rightarrow> vec \<Rightarrow> vec \<Rightarrow> real" where
  "ls_f X y theta = 0.5 * (norm2 (vsub y (mat_vec X theta))) ^ 2"

definition ls_full_grad_f :: "nat \<Rightarrow> mat \<Rightarrow> vec \<Rightarrow> vec \<Rightarrow> vec" where
  "ls_full_grad_f p X y theta = vneg (mat_vec (transposed p X) (vsub y (mat_vec X theta)))"

definition ls_grad_f :: "mat \<Rightarrow> vec \<Rightarrow> vec \<Rightarrow> nat \<Rightarrow> vec" where
  "ls_grad_f X y theta i = smul (y ! i - dot (X ! i) theta) (vneg (X ! i))"


definition log_full_grad_f :: "nat \<Rightarrow> nat \<Rightarrow> mat \<Rightarrow> vec \<Rightarrow> vec \<Rightarrow> vec" where
  "log_full_grad_f n p X y theta =
     smul (1 / real n)
       (vec_mat p (map2 (/) (vneg y) (map (\<lambda>z. 1 + exp z) (map2 (*) y (mat_vec X theta)))) X)"

definition margin :: "mat \<Rightarrow> vec \<Rightarrow> vec \<Rightarrow> nat \<Rightarrow> real" where
  "margin X y theta i = y ! i * dot (X ! i) theta"

definition log_grad_f :: "nat \<Rightarrow> mat \<Rightarrow> vec \<Rightarrow> vec \<Rightarrow> nat \<Rightarrow> vec" where
  "log_grad_f n X y theta i =
     smul ((1 / real n) * (- (y ! i) / (1 + exp (margin X y theta i)))) (X ! i)"

text \<open>
  The largest finite double is \<open>(2 - 2^-52) * 2^1023\<close>. An exponential whose exact value
  reaches \<open>2^1024\<close> is beyond every finite double whatever the rounding, and \<open>np.exp\<close>
  returns \<open>inf\<close> for it: \<open>exp_overflows\<close> is this certain overflow.
\<close>

definition exp_overflows :: "real \<Rightarrow> bool" where
  "exp_overflows z \<longleftrightarrow> 2 ^ 1024 \<le> exp z"

text \<open>The sum of a list of vectors of length \<open>p\<close>.\<close>

definition vsum :: "nat \<Rightarrow> vec list \<Rightarrow> vec" where
  "vsum p vs = foldr vadd vs (zeros p)"

section \<open>The closed-form least-squares minimiser\<close>

text \<open>
  \<^verbatim>\<open>
  theta_star = np.linalg.inv(X.T.dot(X)).dot(X.T).dot(y)
  \<close>
  \<open>np.linalg.inv\<close> is NumPy's routine, not code of the notebooks. It is modelled in exact
  arithmetic by Gauss-Jordan elimination with row exchanges on the matrix extended by the
  identity: column by column a row with a nonzero entry is moved to the diagonal and
  scaled to 1, and the column is cleared in every other row. Where a column has no pivot
  the model fails with \<open>SingularMatrix\<close>, as NumPy raises \<open>LinAlgError: Singular matrix\<close>;
  nothing in the notebook catches it. This is the routine over the reals: on doubles NumPy
  raises only where a computed pivot is exactly zero, which rounding can prevent for a
  singular matrix and underflow can cause for an invertible one.
\<close>

datatype error = SingularMatrix

definition identity :: "nat \<Rightarrow> mat" where
  "identity p = map (\<lambda>i. map (\<lambda>j. if i = j then 1 else 0) [0..<p]) [0..<p]"

definition find_pivot :: "mat \<Rightarrow> nat \<Rightarrow> nat option" where
  "find_pivot M k = List.find (\<lambda>r. M ! r ! k \<noteq> 0) [k..<length M]"

definition swap_rows :: "mat \<Rightarrow> nat \<Rightarrow> nat \<Rightarrow> mat" where
  "swap_rows M i j = M[i := M ! j, j := M ! i]"

definition scale_row :: "mat \<Rightarrow> nat \<Rightarrow> real \<Rightarrow> mat" where
  "scale_row M k c = M[k := smul c (M ! k)]"

definition eliminate :: "mat \<Rightarrow> nat \<Rightarrow> mat" where
  "eliminate M k =
     map (\<lambda>j. if j = k then M ! k else vsub (M ! j) (smul (M ! j ! k) (M ! k))) [0..<length M]"

definition gj_column :: "mat \<Rightarrow> nat \<Rightarrow> error + mat" where
  "gj_column M k =
     (case find_pivot M k of
        None \<Rightarrow> Inl SingularMatrix
      | Some r \<Rightarrow>
          (let M1 = swap_rows M k r;
               M2 = scale_row M1 k (1 / M1 ! k ! k)
           in Inr (eliminate M2 k)))"

fun gj_columns :: "mat \<Rightarrow> nat list \<Rightarrow> error + mat" where
  "gj_columns M [] = Inr M"
| "gj_columns M (k # ks) =
     (case gj_column M k of Inl e \<Rightarrow> Inl e | Inr M' \<Rightarrow> gj_columns M' ks)"

definition linalg_inv :: "mat \<Rightarrow> error + mat" where
  "linalg_inv A =
     (let p = length A
      in case gj_columns (map2 (@) A (identity p)) [0..<p] of
           Inl e \<Rightarrow> Inl e
         | Inr M \<Rightarrow> Inr (map (drop p) M))"


text \<open>
  Two notions for reasoning about the elimination: \<open>z\<close> solves the homogeneous system
  of the rows of \<open>M\<close>, and the first \<open>k\<close> columns of \<open>M\<close> are those of the identity.
\<close>

definition solves :: "mat \<Rightarrow> vec \<Rightarrow> bool" where
  "solves M z \<longleftrightarrow> list_all (\<lambda>r. dot r z = 0) M"

definition reduced :: "mat \<Rightarrow> nat \<Rightarrow> bool" where
  "reduced M k \<longleftrightarrow>
     list_all (\<lambda>i. list_all (\<lambda>c. M ! i ! c = (if i = c then 1 else 0)) [0..<k]) [0..<length M]"



section \<open>SVRG\<close>

text \<open>
  The completed SVRG cell (logistic regression; in the least-squares cells the update of
  \<open>theta\<close> is left as an exercise and everything else is the same):
  \<^verbatim>\<open>
  theta_history = np.zeros((max_iter_inner, p))
  ...
  for t in range(max_iter):
      full_gradient_hat = full_grad_f(theta_hat)
      theta = theta_hat
      for k in range(max_iter_inner):
          i = np.random.randint(0, n)
          theta = theta - step_size * ( grad_f(theta, i)  - grad_f(theta_hat, i) + full_gradient_hat )
          theta_history[k,:] = theta
      theta_hat = np.mean(theta_history, axis=0)
      f_SVRG_history.append(f(theta_hat))
  \<close>
  The field \<open>full_grad_evals\<close> is not a variable of the code: it logs, in order, the
  points at which \<open>full_grad_f\<close> has been called. \<open>theta\<close> and \<open>full_gradient_hat\<close> are
  first assigned at the top of the first epoch; until then the state holds the initial
  point and zeros in their place.
\<close>

record 'g svrg_state =
  theta_hat :: vec
  svrg_theta :: vec
  full_gradient_hat :: vec
  theta_history :: mat
  svrg_rng :: 'g
  f_SVRG_history :: "real list"
  full_grad_evals :: "vec list"

definition svrg_init :: "nat \<Rightarrow> nat \<Rightarrow> vec \<Rightarrow> 'g \<Rightarrow> 'g svrg_state" where
  "svrg_init max_iter_inner p theta_hat0 g =
     \<lparr> theta_hat = theta_hat0, svrg_theta = theta_hat0, full_gradient_hat = zeros p,
       theta_history = zeros2 max_iter_inner p, svrg_rng = g,
       f_SVRG_history = [], full_grad_evals = [] \<rparr>"

definition svrg_inner_step ::
  "(vec \<Rightarrow> nat \<Rightarrow> vec) \<Rightarrow> real \<Rightarrow> ('g \<Rightarrow> nat \<times> 'g) \<Rightarrow> nat \<Rightarrow> 'g svrg_state \<Rightarrow> 'g svrg_state" where
  "svrg_inner_step grad_f step_size randint k s =
     (let (i, g') = randint (svrg_rng s);
          theta = vsub (svrg_theta s)
                    (smul step_size
                       (vadd (vsub (grad_f (svrg_theta s) i) (grad_f (theta_hat s) i))
                             (full_gradient_hat s)))
      in s\<lparr> svrg_theta := theta, svrg_rng := g',
            theta_history := (theta_history s)[k := theta] \<rparr>)"

fun svrg_inner ::
  "(vec \<Rightarrow> nat \<Rightarrow> vec) \<Rightarrow> real \<Rightarrow> ('g \<Rightarrow> nat \<times> 'g) \<Rightarrow> 'g svrg_state \<Rightarrow> nat \<Rightarrow> 'g svrg_state" where
  "svrg_inner grad_f step_size randint s 0 = s"
| "svrg_inner grad_f step_size randint s (Suc k) =
     svrg_inner_step grad_f step_size randint k (svrg_inner grad_f step_size randint s k)"

definition svrg_epoch ::
  "(vec \<Rightarrow> real) \<Rightarrow> (vec \<Rightarrow> nat \<Rightarrow> vec) \<Rightarrow> (vec \<Rightarrow> vec) \<Rightarrow> nat \<Rightarrow> nat \<Rightarrow> real \<Rightarrow>
   ('g \<Rightarrow> nat \<times> 'g) \<Rightarrow> 'g svrg_state \<Rightarrow> 'g svrg_state" where
  "svrg_epoch f grad_f full_grad_f max_iter_inner p step_size randint s =
     (let s1 = s\<lparr> full_gradient_hat := full_grad_f (theta_hat s),
                  full_grad_evals := full_grad_evals s @ [theta_hat s],
                  svrg_theta := theta_hat s \<rparr>;
          s2 = svrg_inner grad_f step_size randint s1 max_iter_inner;
          theta_hat' = mean_axis0 p (theta_history s2)
      in s2\<lparr> theta_hat := theta_hat',
             f_SVRG_history := f_SVRG_history s2 @ [f theta_hat'] \<rparr>)"

fun svrg_loop ::
  "(vec \<Rightarrow> real) \<Rightarrow> (vec \<Rightarrow> nat \<Rightarrow> vec) \<Rightarrow> (vec \<Rightarrow> vec) \<Rightarrow> nat \<Rightarrow> nat \<Rightarrow> real \<Rightarrow>
   ('g \<Rightarrow> nat \<times> 'g) \<Rightarrow> 'g svrg_state \<Rightarrow> nat \<Rightarrow> 'g svrg_state" where
  "svrg_loop f grad_f full_grad_f max_iter_inner p step_size randint s0 0 = s0"
| "svrg_loop f grad_f full_grad_f max_iter_inner p step_size randint s0 (Suc t) =
     svrg_epoch f grad_f full_grad_f max_iter_inner p step_size randint
       (svrg_loop f grad_f full_grad_f max_iter_inner p step_size randint s0 t)"

text \<open>The generator state after \<open>k\<close> draws, and the index drawn \<open>k\<close>-th (counting from 0).\<close>

fun rng_after :: "('g \<Rightarrow> nat \<times> 'g) \<Rightarrow> 'g \<Rightarrow> nat \<Rightarrow> 'g" where
  "rng_after randint g 0 = g"
| "rng_after randint g (Suc k) = snd (randint (rng_after randint g k))"

definition draw_at :: "('g \<Rightarrow> nat \<times> 'g) \<Rightarrow> 'g \<Rightarrow> nat \<Rightarrow> nat" where
  "draw_at randint g k = fst (randint (rng_after randint g k))"

section \<open>ADMM for the Lasso, single split\<close>

text \<open>
  \<open>lasso_ADMM\<close> initialises \<open>rho\<close> and \<open>u\<close> to zeros and leaves the rest of its body as an
  exercise: the source has no code for the updates. A markdown cell of the notebook states
  the two subproblems of a round,
  \<^verbatim>\<open>
  theta^{t+1} = argmin_theta 1/(2n) ||X theta - y||^2 + tau/2 ||theta - rho^t + u^t||^2
  rho^{t+1}   = argmin_theta lambda ||theta||_1 + tau/2 ||theta - theta^{t+1} - u^t||^2
  \<close>
  and \<open>(x)_+ := max(x, 0)\<close>. The two objectives are written down as stated there.
\<close>

definition norm1 :: "vec \<Rightarrow> real" where
  "norm1 v = sum_list (map abs v)"

definition sqnorm :: "vec \<Rightarrow> real" where
  "sqnorm v = sum_list (map (\<lambda>x. x ^ 2) v)"

definition theta_objective :: "mat \<Rightarrow> vec \<Rightarrow> real \<Rightarrow> vec \<Rightarrow> vec \<Rightarrow> vec \<Rightarrow> real" where
  "theta_objective X y tau rho u theta =
     1 / (2 * real (length X)) * sqnorm (vsub (mat_vec X theta) y)
     + tau / 2 * sqnorm (vadd (vsub theta rho) u)"

definition rho_objective :: "real \<Rightarrow> real \<Rightarrow> vec \<Rightarrow> vec \<Rightarrow> vec \<Rightarrow> real" where
  "rho_objective lam tau theta u r =
     lam * norm1 r + tau / 2 * sqnorm (vsub (vsub r theta) u)"

definition pos_part :: "real \<Rightarrow> real" where
  "pos_part x = max x 0"

definition madd :: "mat \<Rightarrow> mat \<Rightarrow> mat" where
  "madd A B = map2 vadd A B"

definition msmul :: "real \<Rightarrow> mat \<Rightarrow> mat" where
  "msmul c A = map (smul c) A"

definition mdiv :: "mat \<Rightarrow> real \<Rightarrow> mat" where
  "mdiv A c = map (\<lambda>row. sdiv row c) A"

text \<open>
  Modelled from the spec: the theta-update of \<open>lasso_ADMM\<close>, for which the source has no
  code (the body of the function is \<open># TODO\<close>). The specification gives it as
  \<open>theta \<leftarrow> 1/n (X^T X / n + tau I)^{-1} (X^T y / n + tau (rho - u))\<close>; the inverse is the
  exact one, and \<open>n\<close> is the number of rows of \<open>X\<close>.
\<close>

definition theta_update :: "nat \<Rightarrow> mat \<Rightarrow> vec \<Rightarrow> real \<Rightarrow> vec \<Rightarrow> vec \<Rightarrow> error + vec" where
  "theta_update p X y tau rho u =
     (let n = real (length X);
          A = madd (mdiv (mat_mul p (transposed p X) X) n) (msmul tau (identity p));
          b = vadd (sdiv (mat_vec (transposed p X) y) n) (smul tau (vsub rho u))
      in case linalg_inv A of
           Inl e \<Rightarrow> Inl e
         | Inr Ainv \<Rightarrow> Inr (smul (1 / n) (mat_vec Ainv b)))"

text \<open>
  Modelled from the spec: the soft-threshold operator, for which the source has no code.
  The specification gives it as \<open>prox_k(v)_j = sign(v_j) max(|v_j| - k, 0)\<close>, applied
  elementwise.
\<close>

definition soft_threshold :: "real \<Rightarrow> real \<Rightarrow> real" where
  "soft_threshold k v = sgn v * max (\<bar>v\<bar> - k) 0"

definition prox_l1 :: "real \<Rightarrow> vec \<Rightarrow> vec" where
  "prox_l1 k v = map (soft_threshold k) v"

text \<open>
  Modelled from the spec: the rho-update of \<open>lasso_ADMM\<close>, for which the source has no
  code (the body of the function is \<open># TODO\<close>). The specification gives it as
  \<open>rho \<leftarrow> prox_{lambda/tau}(theta + u)\<close>.
\<close>

definition rho_update :: "real \<Rightarrow> real \<Rightarrow> vec \<Rightarrow> vec \<Rightarrow> vec" where
  "rho_update lam tau theta u = prox_l1 (lam / tau) (vadd theta u)"

section \<open>Notions used in the statements\<close>

text \<open>
  The inner iterates of one SVRG epoch as the algorithm is described: starting from the
  snapshot, step \<open>k\<close> draws \<open>i\<close> and moves by the step size times
  \<open>grad f_i(theta) - grad f_i(snapshot) + g\<close>, where \<open>g\<close> is a fixed vector (the gradient
  stored for the snapshot).
\<close>

fun svrg_spec_iterate ::
  "(vec \<Rightarrow> nat \<Rightarrow> vec) \<Rightarrow> real \<Rightarrow> ('g \<Rightarrow> nat \<times> 'g) \<Rightarrow> vec \<Rightarrow> vec \<Rightarrow> 'g \<Rightarrow> nat \<Rightarrow> vec" where
  "svrg_spec_iterate grad_f step_size randint snapshot g0 rng 0 = snapshot"
| "svrg_spec_iterate grad_f step_size randint snapshot g0 rng (Suc k) =
     (let theta = svrg_spec_iterate grad_f step_size randint snapshot g0 rng k;
          i = draw_at randint rng k
      in vsub theta (smul step_size (vadd (vsub (grad_f theta i) (grad_f snapshot i)) g0)))"


section \<open>Properties\<close>

subsection \<open>Basic facts about vectors and matrices\<close>

lemma length_vadd [simp]: "length (vadd a b) = min (length a) (length b)"
  by (simp add: vadd_def)

lemma length_vsub [simp]: "length (vsub a b) = min (length a) (length b)"
  by (simp add: vsub_def)

lemma length_vneg [simp]: "length (vneg a) = length a"
  by (simp add: vneg_def)

lemma length_smul [simp]: "length (smul c a) = length a"
  by (simp add: smul_def)

lemma length_zeros [simp]: "length (zeros p) = p"
  by (simp add: zeros_def)

lemma length_mat_vec [simp]: "length (mat_vec M v) = length M"
  by (simp add: mat_vec_def)

lemma length_vec_mat [simp]: "length (vec_mat p v M) = p"
  by (simp add: vec_mat_def)

lemma length_col [simp]: "length (col M c) = length M"
  by (simp add: col_def)

lemma length_transp [simp]: "length (transposed p M) = p"
  by (simp add: transposed_def)

lemma nth_vadd [simp]: "i < length a \<Longrightarrow> i < length b \<Longrightarrow> vadd a b ! i = a ! i + b ! i"
  by (simp add: vadd_def)

lemma nth_vsub [simp]: "i < length a \<Longrightarrow> i < length b \<Longrightarrow> vsub a b ! i = a ! i - b ! i"
  by (simp add: vsub_def)

lemma nth_vneg [simp]: "i < length a \<Longrightarrow> vneg a ! i = - (a ! i)"
  by (simp add: vneg_def)

lemma nth_smul [simp]: "i < length a \<Longrightarrow> smul c a ! i = c * a ! i"
  by (simp add: smul_def)

lemma nth_zeros [simp]: "i < p \<Longrightarrow> zeros p ! i = 0"
  by (simp add: zeros_def)

lemma nth_col [simp]: "i < length M \<Longrightarrow> col M c ! i = M ! i ! c"
  by (simp add: col_def)

lemma nth_mat_vec [simp]: "i < length M \<Longrightarrow> mat_vec M v ! i = dot (M ! i) v"
  by (simp add: mat_vec_def)

lemma nth_vec_mat [simp]: "c < p \<Longrightarrow> vec_mat p v M ! c = dot v (col M c)"
  by (simp add: vec_mat_def)

lemma nth_transp [simp]: "c < p \<Longrightarrow> transposed p M ! c = col M c"
  by (simp add: transposed_def)

lemma map2_index:
  "length a = length b \<Longrightarrow> map2 f a b = map (\<lambda>i. f (a ! i) (b ! i)) [0..<length a]"
  by (rule nth_equalityI) simp_all

lemma dot_index:
  "length a = length b \<Longrightarrow> dot a b = sum_list (map (\<lambda>i. a ! i * b ! i) [0..<length a])"
  by (simp add: dot_def map2_index)

lemma is_mat_row: "is_mat n p M \<Longrightarrow> i < n \<Longrightarrow> length (M ! i) = p"
  by (simp add: is_mat_def list_all_length)

lemma is_mat_length: "is_mat n p M \<Longrightarrow> length M = n"
  by (simp add: is_mat_def)

lemma length_vsum [simp]: "(\<forall>v\<in>set vs. length v = p) \<Longrightarrow> length (vsum p vs) = p"
  by (induction vs) (simp_all add: vsum_def)

lemma nth_vsum:
  "(\<forall>v\<in>set vs. length v = p) \<Longrightarrow> c < p \<Longrightarrow> vsum p vs ! c = sum_list (map (\<lambda>v. v ! c) vs)"
proof (induction vs)
  case Nil
  then show ?case by (simp add: vsum_def)
next
  case (Cons v vs)
  then have "length (vsum p vs) = p" by simp
  then show ?case using Cons by (simp add: vsum_def)
qed

lemma sum_list_upt_sum: "sum_list (map f [0..<n]) = (\<Sum>i<n. (f i :: real))"
  by (simp add: interv_sum_list_conv_sum_set_nat atLeast0LessThan)

lemma mean_axis0_map:
  "mean_axis0 p (map it [0..<K]) = map (\<lambda>c. (\<Sum>k<K. it k ! c) / real K) [0..<p]"
  by (simp add: mean_axis0_def col_def comp_def sum_list_upt_sum)

lemma sum_list_index_cong:
  "(\<And>i. i < n \<Longrightarrow> f i = g i) \<Longrightarrow> sum_list (map f [0..<n]) = sum_list (map g [0..<n])"
  by (rule arg_cong [where f = sum_list]) simp

lemma dot_col:
  assumes "length M = n" "length v = n"
  shows "dot v (col M c) = sum_list (map (\<lambda>i. v ! i * M ! i ! c) [0..<n])"
    and "dot (col M c) v = sum_list (map (\<lambda>i. M ! i ! c * v ! i) [0..<n])"
proof -
  have "dot v (col M c) = sum_list (map (\<lambda>i. v ! i * col M c ! i) [0..<n])"
    using assms by (simp add: dot_index)
  also have "\<dots> = sum_list (map (\<lambda>i. v ! i * M ! i ! c) [0..<n])"
    by (rule sum_list_index_cong) (simp add: assms)
  finally show "dot v (col M c) = sum_list (map (\<lambda>i. v ! i * M ! i ! c) [0..<n])" .
  have "dot (col M c) v = sum_list (map (\<lambda>i. col M c ! i * v ! i) [0..<n])"
    using assms dot_index [of "col M c" v] by simp
  also have "\<dots> = sum_list (map (\<lambda>i. M ! i ! c * v ! i) [0..<n])"
    by (rule sum_list_index_cong) (simp add: assms)
  finally show "dot (col M c) v = sum_list (map (\<lambda>i. M ! i ! c * v ! i) [0..<n])" .
qed

subsection \<open>What the SGD and SAGA loops record\<close>

lemma ceil_div_Suc:
  assumes "0 < m"
  shows "(Suc T + m - 1) div m = (T + m - 1) div m + (if T mod m = 0 then 1 else 0)"
proof -
  define k where "k = m - 1"
  have k: "k < m" using assms by (simp add: k_def)
  define q where "q = T div m"
  define r where "r = T mod m"
  have T: "T = r + q * m" and r: "r < m" using assms by (simp_all add: q_def r_def)
  have a: "(Suc T + m - 1) div m = Suc q"
  proof -
    have "Suc T + m - 1 = r + Suc q * m" using T by simp
    then show ?thesis using r by (simp del: mult_Suc)
  qed
  have b: "(T + m - 1) div m = q + (if r = 0 then 0 else 1)"
  proof (cases "r = 0")
    case True
    have "T + m - 1 = k + q * m" using T assms True by (simp add: k_def)
    then show ?thesis using k True by simp
  next
    case False
    obtain r' where r': "r = Suc r'" using False by (cases r) auto
    have "T + m - 1 = r' + Suc q * m" using T r' by simp
    moreover have "r' < m" using r r' by simp
    ultimately show ?thesis using False by (simp del: mult_Suc)
  qed
  show ?thesis using a b by (simp add: r_def)
qed

lemma count_multiples:
  "0 < m \<Longrightarrow> length (filter (\<lambda>t. t mod m = 0) [0..<T]) = (T + m - 1) div m"
proof (induction T)
  case 0
  then show ?case by simp
next
  case (Suc T)
  then show ?case using ceil_div_Suc [of m T] by simp
qed

lemma sgd_theta_history_eq:
  "theta_SGD_history (sgd_loop f grad_f n \<gamma> randint s0 T) =
     theta_SGD_history s0 @
     map (\<lambda>t. sgd_theta (sgd_loop f grad_f n \<gamma> randint s0 (Suc t)))
       (filter (\<lambda>t. t mod (2 * n) = 0) [0..<T])"
  by (induction T) (simp_all add: sgd_step_def Let_def split: prod.splits)

lemma sgd_f_history_eq:
  "f_SGD_history (sgd_loop f grad_f n \<gamma> randint s0 T) =
     f_SGD_history s0 @
     map (\<lambda>t. f (sgd_theta (sgd_loop f grad_f n \<gamma> randint s0 (Suc t))))
       (filter (\<lambda>t. t mod (2 * n) = 0) [0..<T])"
  by (induction T) (simp_all add: sgd_step_def Let_def split: prod.splits)

lemma saga_theta_history_eq:
  "saga_theta_history (saga_loop f grad_f n \<gamma> randint s0 T) =
     saga_theta_history s0 @
     map (\<lambda>t. saga_theta (saga_loop f grad_f n \<gamma> randint s0 (Suc t)))
       (filter (\<lambda>t. t mod (2 * n) = 0) [0..<T])"
  by (induction T) (simp_all add: saga_step_def Let_def split: prod.splits)

lemma saga_f_history_eq:
  "saga_f_history (saga_loop f grad_f n \<gamma> randint s0 T) =
     saga_f_history s0 @
     map (\<lambda>t. f (saga_theta (saga_loop f grad_f n \<gamma> randint s0 (Suc t))))
       (filter (\<lambda>t. t mod (2 * n) = 0) [0..<T])"
  by (induction T) (simp_all add: saga_step_def Let_def split: prod.splits)

text \<open>
  Claim C10. Run for \<open>T\<close> iterations over \<open>n > 0\<close> data from empty histories, the SGD
  loop and the SAGA loop record the iterate and its objective value exactly at the
  iterations \<open>t < T\<close> with \<open>t mod 2n = 0\<close> (the recorded iterate is the one just computed
  in iteration \<open>t\<close>), so each history has \<open>\<lceil>T / 2n\<rceil>\<close> entries and every other iterate is
  dropped.
\<close>

theorem history_recorded_every_2n:
  assumes "0 < n"
  shows
    "theta_SGD_history (sgd_loop f grad_f n \<gamma> randint (sgd_init theta0 avg0 g) T) =
       map (\<lambda>t. sgd_theta (sgd_loop f grad_f n \<gamma> randint (sgd_init theta0 avg0 g) (Suc t)))
         (filter (\<lambda>t. t mod (2 * n) = 0) [0..<T])
     \<and> f_SGD_history (sgd_loop f grad_f n \<gamma> randint (sgd_init theta0 avg0 g) T) =
       map (\<lambda>t. f (sgd_theta (sgd_loop f grad_f n \<gamma> randint (sgd_init theta0 avg0 g) (Suc t))))
         (filter (\<lambda>t. t mod (2 * n) = 0) [0..<T])
     \<and> length (theta_SGD_history (sgd_loop f grad_f n \<gamma> randint (sgd_init theta0 avg0 g) T)) =
       (T + 2 * n - 1) div (2 * n)
     \<and> length (f_SGD_history (sgd_loop f grad_f n \<gamma> randint (sgd_init theta0 avg0 g) T)) =
       (T + 2 * n - 1) div (2 * n)
     \<and> saga_theta_history (saga_loop f grad_f n \<gamma> randint (saga_init n p theta0 g) T) =
       map (\<lambda>t. saga_theta (saga_loop f grad_f n \<gamma> randint (saga_init n p theta0 g) (Suc t)))
         (filter (\<lambda>t. t mod (2 * n) = 0) [0..<T])
     \<and> saga_f_history (saga_loop f grad_f n \<gamma> randint (saga_init n p theta0 g) T) =
       map (\<lambda>t. f (saga_theta (saga_loop f grad_f n \<gamma> randint (saga_init n p theta0 g) (Suc t))))
         (filter (\<lambda>t. t mod (2 * n) = 0) [0..<T])
     \<and> length (saga_theta_history (saga_loop f grad_f n \<gamma> randint (saga_init n p theta0 g) T)) =
       (T + 2 * n - 1) div (2 * n)
     \<and> length (saga_f_history (saga_loop f grad_f n \<gamma> randint (saga_init n p theta0 g) T)) =
       (T + 2 * n - 1) div (2 * n)"
proof -
  have m: "0 < 2 * n" using assms by simp
  have c: "length (filter (\<lambda>t. t mod (2 * n) = 0) [0..<T]) = (T + 2 * n - 1) div (2 * n)"
    by (rule count_multiples [OF m])
  have e1: "theta_SGD_history (sgd_init theta0 avg0 g) = []"
    and e2: "f_SGD_history (sgd_init theta0 avg0 g) = []"
    by (simp_all add: sgd_init_def)
  have e3: "saga_theta_history (saga_init n p theta0 g) = []"
    and e4: "saga_f_history (saga_init n p theta0 g) = []"
    by (simp_all add: saga_init_def)
  show ?thesis
    unfolding sgd_theta_history_eq [of f grad_f n \<gamma> randint "sgd_init theta0 avg0 g" T]
      sgd_f_history_eq [of f grad_f n \<gamma> randint "sgd_init theta0 avg0 g" T]
      saga_theta_history_eq [of f grad_f n \<gamma> randint "saga_init n p theta0 g" T]
      saga_f_history_eq [of f grad_f n \<gamma> randint "saga_init n p theta0 g" T]
      e1 e2 e3 e4
    using c by simp
qed

theorem history_recorded_every_2n_witness:
  "(0::nat) < 1
   \<and> length (theta_SGD_history
      (sgd_loop (\<lambda>v. 0) (\<lambda>v i. v) 1 1 (\<lambda>g::nat. (0, g)) (sgd_init [1] [1] 0) 5)) = 3
   \<and> length (saga_f_history
      (saga_loop (\<lambda>v. 0) (\<lambda>v i. v) 1 1 (\<lambda>g::nat. (0, g)) (saga_init 1 1 [1] 0) 5)) = 3"
proof -
  have h: "(0::nat) < 1" by simp
  note t = history_recorded_every_2n [OF h, of "\<lambda>v. 0" "\<lambda>v i. v" 1 "\<lambda>g::nat. (0, g)"
      "[1]" "[1]" 0 5 1]
  have c: "(5 + 2 * 1 - 1) div (2 * 1) = (3::nat)" by simp
  from t have a: "length (theta_SGD_history
      (sgd_loop (\<lambda>v. 0) (\<lambda>v i. v) 1 1 (\<lambda>g::nat. (0, g)) (sgd_init [1] [1] 0) 5)) =
      (5 + 2 * 1 - 1) div (2 * 1)" by blast
  from t have b: "length (saga_f_history
      (saga_loop (\<lambda>v. 0) (\<lambda>v i. v) 1 1 (\<lambda>g::nat. (0, g)) (saga_init 1 1 [1] 0) 5)) =
      (5 + 2 * 1 - 1) div (2 * 1)" by blast
  show ?thesis using h a b unfolding c by blast
qed

subsection \<open>The rho-update of ADMM\<close>

lemma pos_part_diff: "pos_part a - pos_part (- a) = a"
  by (simp add: pos_part_def max_def)

text \<open>
  The difference of the positive parts of \<open>a\<close> and \<open>- a\<close> is \<open>a\<close> itself. So an expression
  \<open>(v - k)_+ - (k - v)_+\<close> is the plain shift \<open>v - k\<close>; the soft threshold is
  \<open>(v - k)_+ - (- v - k)_+\<close>.
\<close>

lemma soft_threshold_pos_parts:
  "0 \<le> k \<Longrightarrow> soft_threshold k v = pos_part (v - k) - pos_part (- v - k)"
  by (auto simp: soft_threshold_def pos_part_def max_def sgn_real_def)

text \<open>The soft threshold with threshold \<open>lambda / tau\<close> solves the rho-subproblem as the
  notebook states it: it minimises \<open>lambda |r| + tau/2 (r - v)^2\<close> in every coordinate, hence
  the objective of the subproblem.\<close>

lemma soft_threshold_minimises:
  assumes "0 \<le> lam" "0 < tau"
  shows "lam * \<bar>soft_threshold (lam / tau) v\<bar> + tau / 2 * (soft_threshold (lam / tau) v - v) ^ 2
         \<le> lam * \<bar>r\<bar> + tau / 2 * (r - v) ^ 2"
proof -
  define k where "k = lam / tau"
  have lam: "lam = k * tau" and k: "0 \<le> k" using assms by (simp_all add: k_def)
  have key: "k * \<bar>soft_threshold k v\<bar> + (soft_threshold k v - v) ^ 2 / 2
        \<le> k * \<bar>r\<bar> + (r - v) ^ 2 / 2"
  proof -
    consider "k < v" | "v < - k" | "- k \<le> v" "v \<le> k" by linarith
    then show ?thesis
    proof cases
      case 1
      then have s: "soft_threshold k v = v - k" using k
        by (simp add: soft_threshold_def sgn_real_def max_def)
      have a: "\<bar>v - k\<bar> = v - k" using 1 by simp
      have id: "k * \<bar>r\<bar> + (r - v) ^ 2 / 2 - (k * (v - k) + (v - k - v) ^ 2 / 2)
          = k * (\<bar>r\<bar> - r) + (r - v + k) ^ 2 / 2"
        by (simp add: power2_eq_square field_simps)
      have "0 \<le> k * (\<bar>r\<bar> - r)" using k by simp
      moreover have "0 \<le> (r - v + k) ^ 2 / 2" by simp
      ultimately have "0 \<le> k * \<bar>r\<bar> + (r - v) ^ 2 / 2 - (k * (v - k) + (v - k - v) ^ 2 / 2)"
        unfolding id by linarith
      then show ?thesis unfolding s a by linarith
    next
      case 2
      then have s: "soft_threshold k v = v + k" using k
        by (simp add: soft_threshold_def sgn_real_def max_def)
      have a: "\<bar>v + k\<bar> = - (v + k)" using 2 by simp
      have id: "k * \<bar>r\<bar> + (r - v) ^ 2 / 2 - (k * (- (v + k)) + (v + k - v) ^ 2 / 2)
          = k * (\<bar>r\<bar> + r) + (r - v - k) ^ 2 / 2"
        by (simp add: power2_eq_square field_simps)
      have "0 \<le> k * (\<bar>r\<bar> + r)" using k by simp
      moreover have "0 \<le> (r - v - k) ^ 2 / 2" by simp
      ultimately have "0 \<le> k * \<bar>r\<bar> + (r - v) ^ 2 / 2 - (k * (- (v + k)) + (v + k - v) ^ 2 / 2)"
        unfolding id by linarith
      then show ?thesis unfolding s a by linarith
    next
      case 3
      have av: "\<bar>v\<bar> \<le> k" using 3 by simp
      then have s: "soft_threshold k v = 0"
        by (simp add: soft_threshold_def max_def)
      have "\<bar>r\<bar> * \<bar>v\<bar> \<le> \<bar>r\<bar> * k" using av by (simp add: mult_left_mono)
      moreover have "r * v \<le> \<bar>r\<bar> * \<bar>v\<bar>" by (metis abs_ge_self abs_mult)
      ultimately have rv: "r * v \<le> k * \<bar>r\<bar>" by (simp add: mult.commute)
      have id: "k * \<bar>r\<bar> + (r - v) ^ 2 / 2 - (0 - v) ^ 2 / 2 = (k * \<bar>r\<bar> - r * v) + r ^ 2 / 2"
        by (simp add: power2_eq_square field_simps)
      have "0 \<le> r ^ 2 / 2" by simp
      then have "0 \<le> k * \<bar>r\<bar> + (r - v) ^ 2 / 2 - (0 - v) ^ 2 / 2"
        unfolding id using rv by linarith
      then show ?thesis unfolding s by simp
    qed
  qed
  have "tau * (k * \<bar>soft_threshold k v\<bar> + (soft_threshold k v - v) ^ 2 / 2)
        \<le> tau * (k * \<bar>r\<bar> + (r - v) ^ 2 / 2)"
    using key assms by (simp add: mult_left_mono)
  then show ?thesis unfolding lam k_def [symmetric] by (simp add: algebra_simps)
qed

lemma prox_l1_minimises_rho_objective:
  assumes "0 \<le> lam" "0 < tau" "length theta = length u" "length u = length r"
  shows "rho_objective lam tau theta u (prox_l1 (lam / tau) (vadd theta u))
         \<le> rho_objective lam tau theta u r"
  using assms(3,4)
proof (induction theta u r rule: list_induct3)
  case Nil
  then show ?case
    by (simp add: rho_objective_def prox_l1_def vadd_def vsub_def norm1_def sqnorm_def)
next
  case (Cons a as b bs c cs)
  have h: "lam * \<bar>soft_threshold (lam / tau) (a + b)\<bar>
        + tau / 2 * (soft_threshold (lam / tau) (a + b) - (a + b)) ^ 2
        \<le> lam * \<bar>c\<bar> + tau / 2 * (c - (a + b)) ^ 2"
    by (rule soft_threshold_minimises [OF assms(1,2)])
  have e1: "soft_threshold (lam / tau) (a + b) - a - b = soft_threshold (lam / tau) (a + b) - (a + b)"
    by simp
  have e2: "c - a - b = c - (a + b)" by simp
  show ?case using Cons.IH h
    unfolding rho_objective_def prox_l1_def vadd_def vsub_def norm1_def sqnorm_def
    by (simp add: e1 e2 distrib_left)
qed

text \<open>
  Claim C3, as stated, fails: it gives the rho-update as the soft threshold of
  \<open>theta + u\<close> with threshold \<open>lambda / tau\<close> and takes that to equal
  \<open>(theta_j + u_j - lambda/tau)_+ - (lambda/tau - theta_j - u_j)_+\<close>. With
  \<open>lambda = tau = 1\<close> and \<open>theta = u = [0]\<close> the update is \<open>0\<close> and the expression is \<open>-1\<close>.
\<close>

theorem rho_update_positive_parts_counterexample:
  "rho_update 1 1 [0] [0] ! 0 = 0
   \<and> pos_part (0 + 0 - 1 / 1) - pos_part (1 / 1 - 0 - 0) = - 1"
  by (simp add: rho_update_def prox_l1_def soft_threshold_def vadd_def pos_part_def)

text \<open>
  Claim C3, amended. For \<open>lambda \<ge> 0\<close> and \<open>tau > 0\<close> the rho-update is, in every coordinate
  \<open>j\<close>, the soft threshold \<open>sign(v) max(|v| - lambda/tau, 0)\<close> of \<open>v = theta_j + u_j\<close>, which
  equals \<open>(v - lambda/tau)_+ - (- v - lambda/tau)_+\<close>; and it minimises the objective of
  the rho-subproblem.
\<close>

theorem rho_update_soft_threshold:
  assumes "0 \<le> lam" and "0 < tau" and "length theta = length u" and "j < length theta"
  shows "rho_update lam tau theta u ! j =
           sgn (theta ! j + u ! j) * max (\<bar>theta ! j + u ! j\<bar> - lam / tau) 0
       \<and> rho_update lam tau theta u ! j =
           pos_part (theta ! j + u ! j - lam / tau) - pos_part (- theta ! j - u ! j - lam / tau)
       \<and> (\<forall>r. length r = length theta \<longrightarrow>
             rho_objective lam tau theta u (rho_update lam tau theta u)
               \<le> rho_objective lam tau theta u r)"
proof -
  have k: "0 \<le> lam / tau" using assms(1,2) by simp
  have n: "rho_update lam tau theta u ! j = soft_threshold (lam / tau) (theta ! j + u ! j)"
    using assms(3,4) by (simp add: rho_update_def prox_l1_def)
  have a: "rho_update lam tau theta u ! j =
      sgn (theta ! j + u ! j) * max (\<bar>theta ! j + u ! j\<bar> - lam / tau) 0"
    unfolding n by (simp add: soft_threshold_def)
  have b: "rho_update lam tau theta u ! j =
      pos_part (theta ! j + u ! j - lam / tau) - pos_part (- theta ! j - u ! j - lam / tau)"
    unfolding n using soft_threshold_pos_parts [OF k, of "theta ! j + u ! j"] by simp
  have c: "rho_objective lam tau theta u (rho_update lam tau theta u)
      \<le> rho_objective lam tau theta u r" if "length r = length theta" for r
    unfolding rho_update_def
    by (rule prox_l1_minimises_rho_objective [OF assms(1,2,3)]) (simp add: that assms(3) [symmetric])
  show ?thesis using a b c by blast
qed

theorem rho_update_soft_threshold_witness:
  "(0::real) \<le> 1 \<and> (0::real) < 2 \<and> length [3 :: real] = length [0 :: real]
   \<and> (0::nat) < length [3 :: real]
   \<and> rho_update 1 2 [3] [0] ! 0 = pos_part (3 + 0 - 1 / 2) - pos_part (- 3 - 0 - 1 / 2)
   \<and> rho_update 1 2 [3] [0] ! 0 = 5 / 2"
proof -
  have h1: "(0::real) \<le> 1" by simp
  have h2: "(0::real) < 2" by simp
  have h3: "length [3 :: real] = length [0 :: real]" by simp
  have h4: "(0::nat) < length [3 :: real]" by simp
  have e: "rho_update 1 2 [3] [0] ! 0 = 5 / 2"
    by (simp add: rho_update_def prox_l1_def soft_threshold_def vadd_def)
  have "rho_update 1 2 [3] [0] ! 0 =
      pos_part ([3] ! 0 + [0] ! 0 - 1 / 2) - pos_part (- [3] ! 0 - [0] ! 0 - 1 / 2)"
    using rho_update_soft_threshold [OF h1 h2 h3 h4] by blast
  then have "rho_update 1 2 [3] [0] ! 0 = pos_part (3 + 0 - 1 / 2) - pos_part (- 3 - 0 - 1 / 2)"
    by simp
  then show ?thesis using h1 h2 h3 h4 e by blast
qed

subsection \<open>The exponential inside the logistic gradient\<close>

lemma two_power_exp: "(2::real) ^ n = exp (real n * ln 2)"
proof -
  have "exp (real n * ln 2) = exp (ln (2::real)) ^ n" by (rule exp_of_nat_mult)
  then show ?thesis by simp
qed

lemma exp_overflows_iff: "exp_overflows z \<longleftrightarrow> 1024 * ln 2 \<le> z"
  unfolding exp_overflows_def two_power_exp [of 1024] by simp

text \<open>
  Claim C8, as stated, fails: for the single datum \<open>x = [1]\<close>, \<open>y = 1\<close> and
  \<open>theta = [2000]\<close> the argument that \<open>grad_f\<close> passes to \<open>np.exp\<close> is \<open>2000\<close>, and
  \<open>e^2000\<close> is beyond the double range.
\<close>

theorem log_grad_f_exp_overflow_counterexample:
  "exp_overflows (margin [[1]] [1] [2000] 0)"
proof -
  have "ln (2::real) \<le> 1" using ln_le_minus_one [of "2::real"] by simp
  then have "1024 * ln (2::real) \<le> 2000" by simp
  then show ?thesis by (simp add: exp_overflows_iff margin_def dot_def)
qed

text \<open>
  Claim C8, amended. The per-datum logistic gradient is the direct formula
  \<open>(1/n) (- y_i / (1 + e^m)) x_i\<close> with the exponential taken at the margin
  \<open>m = y_i x_i^T theta\<close> itself, with no rescaling and no branch on its sign; the exact
  value of that exponential is at least \<open>2^1024\<close>, beyond the double range, exactly when
  the margin is at least \<open>1024 ln 2\<close> (about 709.78).
\<close>

theorem log_grad_f_exp_overflows_iff:
  assumes "is_mat n p X" and "length y = n" and "i < n"
  shows "log_grad_f n X y theta i =
           smul ((1 / real n) * (- (y ! i) / (1 + exp (y ! i * dot (X ! i) theta)))) (X ! i)
       \<and> (exp_overflows (margin X y theta i) \<longleftrightarrow> 1024 * ln 2 \<le> y ! i * dot (X ! i) theta)"
  by (simp add: log_grad_f_def exp_overflows_iff margin_def)

theorem log_grad_f_exp_overflows_iff_witness:
  "is_mat 2 1 [[1], [2]] \<and> length [1, - 1 :: real] = 2 \<and> (1::nat) < 2
   \<and> (exp_overflows (margin [[1], [2]] [1, - 1] [3] 1) \<longleftrightarrow> 1024 * ln 2 \<le> (- 1 * (2 * 3) :: real))"
proof -
  have h1: "is_mat 2 1 [[1], [2]]" by (simp add: is_mat_def)
  have h2: "length [1, - 1 :: real] = 2" by simp
  have h3: "(1::nat) < 2" by simp
  have d: "[1, - 1 :: real] ! 1 * dot ([[1], [2]] ! 1) [3] = - 1 * (2 * 3)"
    by (simp add: dot_def)
  show ?thesis
    using h1 h2 h3 log_grad_f_exp_overflows_iff [OF h1 h2 h3, of "[3]"] unfolding d by blast
qed

subsection \<open>Full gradient and per-datum gradients\<close>

lemma ls_grad_sum:
  assumes X: "is_mat n p X" and y: "length y = n"
  shows "ls_full_grad_f p X y theta = vsum p (map (ls_grad_f X y theta) [0..<n])"
proof (rule nth_equalityI)
  have len: "\<forall>v\<in>set (map (ls_grad_f X y theta) [0..<n]). length v = p"
    using is_mat_row [OF X] by (simp add: ls_grad_f_def)
  show "length (ls_full_grad_f p X y theta) = length (vsum p (map (ls_grad_f X y theta) [0..<n]))"
    using len by (simp add: ls_full_grad_f_def)
  fix c assume "c < length (ls_full_grad_f p X y theta)"
  then have c: "c < p" by (simp add: ls_full_grad_f_def)
  have n: "length X = n" by (rule is_mat_length [OF X])
  have "ls_full_grad_f p X y theta ! c
      = - sum_list (map (\<lambda>i. X ! i ! c * (vsub y (mat_vec X theta) ! i)) [0..<n])"
    using c n y by (simp add: ls_full_grad_f_def dot_col)
  also have "\<dots> = - sum_list (map (\<lambda>i. X ! i ! c * (y ! i - dot (X ! i) theta)) [0..<n])"
    by (rule arg_cong [where f = uminus], rule sum_list_index_cong) (simp add: n y)
  also have "\<dots> = sum_list (map (\<lambda>i. ls_grad_f X y theta i ! c) [0..<n])"
    unfolding uminus_sum_list_map
    by (rule sum_list_index_cong) (use c is_mat_row [OF X] in \<open>simp add: ls_grad_f_def\<close>)
  also have "\<dots> = vsum p (map (ls_grad_f X y theta) [0..<n]) ! c"
    using nth_vsum [OF len c] by (simp add: comp_def)
  finally show "ls_full_grad_f p X y theta ! c = vsum p (map (ls_grad_f X y theta) [0..<n]) ! c" .
qed

lemma log_grad_sum:
  assumes X: "is_mat n p X" and y: "length y = n"
  shows "log_full_grad_f n p X y theta = vsum p (map (log_grad_f n X y theta) [0..<n])"
proof (rule nth_equalityI)
  have len: "\<forall>v\<in>set (map (log_grad_f n X y theta) [0..<n]). length v = p"
    using is_mat_row [OF X] by (simp add: log_grad_f_def)
  show "length (log_full_grad_f n p X y theta) = length (vsum p (map (log_grad_f n X y theta) [0..<n]))"
    using len by (simp add: log_full_grad_f_def)
  fix c assume "c < length (log_full_grad_f n p X y theta)"
  then have c: "c < p" by (simp add: log_full_grad_f_def)
  have n: "length X = n" by (rule is_mat_length [OF X])
  define w where "w = map2 (/) (vneg y) (map (\<lambda>z. 1 + exp z) (map2 (*) y (mat_vec X theta)))"
  have lw: "length w = n" using n y by (simp add: w_def)
  have w: "w ! i = - (y ! i) / (1 + exp (margin X y theta i))" if "i < n" for i
    using that n y by (simp add: w_def margin_def)
  have "log_full_grad_f n p X y theta = smul (1 / real n) (vec_mat p w X)"
    unfolding log_full_grad_f_def w_def ..
  then have "log_full_grad_f n p X y theta ! c
      = 1 / real n * sum_list (map (\<lambda>i. w ! i * X ! i ! c) [0..<n])"
    using c n lw by (simp add: dot_col)
  also have "\<dots> = sum_list (map (\<lambda>i. 1 / real n * (w ! i * X ! i ! c)) [0..<n])"
    by (simp only: sum_list_const_mult)
  also have "\<dots> = sum_list (map (\<lambda>i. log_grad_f n X y theta i ! c) [0..<n])"
    by (rule sum_list_index_cong) (use c w is_mat_row [OF X] in \<open>simp add: log_grad_f_def\<close>)
  also have "\<dots> = vsum p (map (log_grad_f n X y theta) [0..<n]) ! c"
    using nth_vsum [OF len c] by (simp add: comp_def)
  finally show "log_full_grad_f n p X y theta ! c
      = vsum p (map (log_grad_f n X y theta) [0..<n]) ! c" .
qed

text \<open>
  Claim C5. For both oracles the full gradient is the sum over the data \<open>i = 0, \<dots>, n - 1\<close>
  of the per-datum gradients, with the same normalisation on both sides: none for least
  squares, the factor \<open>1/n\<close> in both gradients for the logistic loss. \<open>X\<close> has \<open>n > 0\<close> rows
  of length \<open>p\<close> and \<open>y\<close> has length \<open>n\<close> (with no data the logistic oracle divides by
  zero).
\<close>

theorem full_grad_is_sum_of_grads:
  assumes "0 < n" and "is_mat n p X" and "length y = n"
  shows "ls_full_grad_f p X y theta = vsum p (map (ls_grad_f X y theta) [0..<n])
       \<and> log_full_grad_f n p X y theta = vsum p (map (log_grad_f n X y theta) [0..<n])"
  using ls_grad_sum [OF assms(2,3)] log_grad_sum [OF assms(2,3)] by blast

theorem full_grad_is_sum_of_grads_witness:
  "is_mat 2 1 [[1], [2]] \<and> length [1, - 1 :: real] = 2
   \<and> ls_full_grad_f 1 [[1], [2]] [1, - 1] [3] =
       vsum 1 (map (ls_grad_f [[1], [2]] [1, - 1] [3]) [0..<2])
   \<and> log_full_grad_f 2 1 [[1], [2]] [1, - 1] [3] =
       vsum 1 (map (log_grad_f 2 [[1], [2]] [1, - 1] [3]) [0..<2])"
proof -
  have h0: "(0::nat) < 2" by simp
  have h1: "is_mat 2 1 [[1], [2]]" by (simp add: is_mat_def)
  have h2: "length [1, - 1 :: real] = 2" by simp
  show ?thesis using h1 h2 full_grad_is_sum_of_grads [OF h0 h1 h2, of "[3]"] by blast
qed

subsection \<open>The running mean of SAGA\<close>












subsection \<open>One epoch of SVRG\<close>

lemma take_Suc_update:
  "k < length xs \<Longrightarrow> take (Suc k) (xs[k := v]) = take k xs @ [v]"
  by (simp add: take_Suc_conv_app_nth)

lemma svrg_inner_frame:
  "theta_hat (svrg_inner grad_f \<gamma> randint s k) = theta_hat s
   \<and> full_gradient_hat (svrg_inner grad_f \<gamma> randint s k) = full_gradient_hat s
   \<and> full_grad_evals (svrg_inner grad_f \<gamma> randint s k) = full_grad_evals s
   \<and> f_SVRG_history (svrg_inner grad_f \<gamma> randint s k) = f_SVRG_history s
   \<and> length (theta_history (svrg_inner grad_f \<gamma> randint s k)) = length (theta_history s)
   \<and> svrg_rng (svrg_inner grad_f \<gamma> randint s k) = rng_after randint (svrg_rng s) k"
  by (induction k) (simp_all add: svrg_inner_step_def Let_def split: prod.splits)

lemma svrg_inner_iterates:
  assumes "k \<le> length (theta_history s)" and "svrg_theta s = theta_hat s"
  shows "svrg_theta (svrg_inner grad_f \<gamma> randint s k) =
           svrg_spec_iterate grad_f \<gamma> randint (theta_hat s) (full_gradient_hat s) (svrg_rng s) k
       \<and> take k (theta_history (svrg_inner grad_f \<gamma> randint s k)) =
           map (\<lambda>j. svrg_spec_iterate grad_f \<gamma> randint (theta_hat s) (full_gradient_hat s)
                  (svrg_rng s) (Suc j)) [0..<k]"
  using assms(1)
proof (induction k)
  case 0
  show ?case using assms(2) by simp
next
  case (Suc k)
  let ?sk = "svrg_inner grad_f \<gamma> randint s k"
  have IH: "svrg_theta ?sk =
      svrg_spec_iterate grad_f \<gamma> randint (theta_hat s) (full_gradient_hat s) (svrg_rng s) k"
    and IH2: "take k (theta_history ?sk) =
      map (\<lambda>j. svrg_spec_iterate grad_f \<gamma> randint (theta_hat s) (full_gradient_hat s)
             (svrg_rng s) (Suc j)) [0..<k]"
    using Suc by simp_all
  note fr = svrg_inner_frame [of grad_f \<gamma> randint s k]
  have k: "k < length (theta_history ?sk)" using Suc.prems fr by simp
  obtain i g' where ig: "randint (svrg_rng ?sk) = (i, g')" by (cases "randint (svrg_rng ?sk)")
  have i: "i = draw_at randint (svrg_rng s) k" using ig fr by (simp add: draw_at_def)
  have "svrg_theta (svrg_inner grad_f \<gamma> randint s (Suc k)) =
      vsub (svrg_theta ?sk)
        (smul \<gamma> (vadd (vsub (grad_f (svrg_theta ?sk) i) (grad_f (theta_hat ?sk) i))
           (full_gradient_hat ?sk)))"
    by (simp add: svrg_inner_step_def ig Let_def)
  then have th: "svrg_theta (svrg_inner grad_f \<gamma> randint s (Suc k)) =
      svrg_spec_iterate grad_f \<gamma> randint (theta_hat s) (full_gradient_hat s) (svrg_rng s) (Suc k)"
    using fr by (simp add: IH i Let_def)
  have hist: "theta_history (svrg_inner grad_f \<gamma> randint s (Suc k)) =
      (theta_history ?sk)[k := svrg_theta (svrg_inner grad_f \<gamma> randint s (Suc k))]"
    by (simp add: svrg_inner_step_def ig Let_def)
  show ?case unfolding hist take_Suc_update [OF k] IH2 th [symmetric] 
    using th by simp
qed

lemma svrg_epoch_props:
  assumes "length (theta_history s) = K"
  shows "full_grad_evals (svrg_epoch f grad_f full_grad_f K p \<gamma> randint s) =
           full_grad_evals s @ [theta_hat s]"
    and "full_gradient_hat (svrg_epoch f grad_f full_grad_f K p \<gamma> randint s) =
           full_grad_f (theta_hat s)"
    and "theta_history (svrg_epoch f grad_f full_grad_f K p \<gamma> randint s) =
           map (\<lambda>k. svrg_spec_iterate grad_f \<gamma> randint (theta_hat s) (full_grad_f (theta_hat s))
                  (svrg_rng s) (Suc k)) [0..<K]"
    and "theta_hat (svrg_epoch f grad_f full_grad_f K p \<gamma> randint s) =
           mean_axis0 p (theta_history (svrg_epoch f grad_f full_grad_f K p \<gamma> randint s))"
    and "f_SVRG_history (svrg_epoch f grad_f full_grad_f K p \<gamma> randint s) =
           f_SVRG_history s @ [f (theta_hat (svrg_epoch f grad_f full_grad_f K p \<gamma> randint s))]"
    and "svrg_rng (svrg_epoch f grad_f full_grad_f K p \<gamma> randint s) =
           rng_after randint (svrg_rng s) K"
proof -
  define s1 where "s1 = s\<lparr> full_gradient_hat := full_grad_f (theta_hat s),
      full_grad_evals := full_grad_evals s @ [theta_hat s], svrg_theta := theta_hat s \<rparr>"
  define s2 where "s2 = svrg_inner grad_f \<gamma> randint s1 K"
  have ep: "svrg_epoch f grad_f full_grad_f K p \<gamma> randint s =
      s2\<lparr> theta_hat := mean_axis0 p (theta_history s2),
          f_SVRG_history := f_SVRG_history s2 @ [f (mean_axis0 p (theta_history s2))] \<rparr>"
    by (simp add: svrg_epoch_def Let_def s1_def s2_def)
  note fr = svrg_inner_frame [of grad_f \<gamma> randint s1 K, folded s2_def]
  have K: "K \<le> length (theta_history s1)" using assms by (simp add: s1_def)
  have th: "svrg_theta s1 = theta_hat s1" by (simp add: s1_def)
  have len: "length (theta_history s2) = K" using fr assms by (simp add: s1_def)
  have "take K (theta_history s2) =
      map (\<lambda>j. svrg_spec_iterate grad_f \<gamma> randint (theta_hat s1) (full_gradient_hat s1)
             (svrg_rng s1) (Suc j)) [0..<K]"
    using svrg_inner_iterates [OF K th, of grad_f \<gamma> randint] by (simp add: s2_def)
  then have hist: "theta_history s2 =
      map (\<lambda>k. svrg_spec_iterate grad_f \<gamma> randint (theta_hat s) (full_grad_f (theta_hat s))
             (svrg_rng s) (Suc k)) [0..<K]"
    using len by (simp add: s1_def)
  show "full_grad_evals (svrg_epoch f grad_f full_grad_f K p \<gamma> randint s) =
           full_grad_evals s @ [theta_hat s]"
    using fr by (simp add: ep s1_def)
  show "full_gradient_hat (svrg_epoch f grad_f full_grad_f K p \<gamma> randint s) =
           full_grad_f (theta_hat s)"
    using fr by (simp add: ep s1_def)
  show "theta_history (svrg_epoch f grad_f full_grad_f K p \<gamma> randint s) =
           map (\<lambda>k. svrg_spec_iterate grad_f \<gamma> randint (theta_hat s) (full_grad_f (theta_hat s))
                  (svrg_rng s) (Suc k)) [0..<K]"
    using hist by (simp add: ep)
  show "theta_hat (svrg_epoch f grad_f full_grad_f K p \<gamma> randint s) =
           mean_axis0 p (theta_history (svrg_epoch f grad_f full_grad_f K p \<gamma> randint s))"
    by (simp add: ep)
  show "f_SVRG_history (svrg_epoch f grad_f full_grad_f K p \<gamma> randint s) =
           f_SVRG_history s @ [f (theta_hat (svrg_epoch f grad_f full_grad_f K p \<gamma> randint s))]"
    using fr by (simp add: ep s1_def)
  show "svrg_rng (svrg_epoch f grad_f full_grad_f K p \<gamma> randint s) =
           rng_after randint (svrg_rng s) K"
    using fr by (simp add: ep s1_def)
qed

lemma svrg_loop_length:
  "length (theta_history (svrg_loop f grad_f full_grad_f K p \<gamma> randint (svrg_init K p th0 g) t)) = K"
proof (induction t)
  case 0
  show ?case by (simp add: svrg_init_def zeros2_def)
next
  case (Suc t)
  show ?case using svrg_epoch_props(3) [OF Suc, of f grad_f full_grad_f p \<gamma> randint] by simp
qed

lemma svrg_loop_evals:
  "full_grad_evals (svrg_loop f grad_f full_grad_f K p \<gamma> randint (svrg_init K p th0 g) T) =
     map (\<lambda>t. theta_hat (svrg_loop f grad_f full_grad_f K p \<gamma> randint (svrg_init K p th0 g) t))
       [0..<T]"
proof (induction T)
  case 0
  show ?case by (simp add: svrg_init_def)
next
  case (Suc T)
  have l: "length (theta_history
      (svrg_loop f grad_f full_grad_f K p \<gamma> randint (svrg_init K p th0 g) T)) = K"
    by (rule svrg_loop_length)
  show ?case
    using svrg_epoch_props(1) [OF l, of f grad_f full_grad_f p \<gamma> randint] Suc by simp
qed

text \<open>
  Claim C4. In a run of SVRG with \<open>K > 0\<close> inner steps, epoch \<open>t\<close> (from the state \<open>s\<close> at
  its start to the state \<open>s'\<close> at its end) calls the full-gradient oracle exactly once,
  at the snapshot \<open>theta_hat\<close> it starts from, and stores the result; the \<open>K\<close> rows of
  \<open>theta_history\<close> are the \<open>K\<close> inner iterates
  \<open>theta \<leftarrow> theta - step_size * (grad_f(theta, i) - grad_f(theta_hat, i) + full_grad_f(theta_hat))\<close>
  started at the snapshot, with that one stored gradient; and the new snapshot is their
  mean: in each of the \<open>p\<close> coordinates, the sum of the \<open>K\<close> inner iterates divided by \<open>K\<close>.
  Over \<open>T\<close> epochs the oracle is called \<open>T\<close> times, once at each epoch's snapshot.
\<close>

theorem svrg_epoch_structure:
  assumes "0 < K"
  shows "(let run = svrg_loop f grad_f full_grad_f K p \<gamma> randint (svrg_init K p th0 g);
              s = run t; s' = run (Suc t)
          in full_grad_evals s' = full_grad_evals s @ [theta_hat s]
           \<and> full_gradient_hat s' = full_grad_f (theta_hat s)
           \<and> theta_history s' =
               map (\<lambda>k. svrg_spec_iterate grad_f \<gamma> randint (theta_hat s)
                      (full_grad_f (theta_hat s)) (svrg_rng s) (Suc k)) [0..<K]
           \<and> theta_hat s' = mean_axis0 p (theta_history s')
           \<and> theta_hat s' =
               map (\<lambda>c. (\<Sum>k<K. svrg_spec_iterate grad_f \<gamma> randint (theta_hat s)
                             (full_grad_f (theta_hat s)) (svrg_rng s) (Suc k) ! c) / real K)
                 [0..<p]
           \<and> length (theta_history s') = K
           \<and> f_SVRG_history s' = f_SVRG_history s @ [f (theta_hat s')])
       \<and> full_grad_evals (svrg_loop f grad_f full_grad_f K p \<gamma> randint (svrg_init K p th0 g) T) =
           map (\<lambda>t. theta_hat (svrg_loop f grad_f full_grad_f K p \<gamma> randint (svrg_init K p th0 g) t))
             [0..<T]"
proof -
  note l = svrg_loop_length [of f grad_f full_grad_f K p \<gamma> randint th0 g t]
  note e = svrg_epoch_props [OF l, of f grad_f full_grad_f p \<gamma> randint]
  note l' = svrg_loop_length [of f grad_f full_grad_f K p \<gamma> randint th0 g "Suc t"]
  have m: "theta_hat (svrg_epoch f grad_f full_grad_f K p \<gamma> randint
        (svrg_loop f grad_f full_grad_f K p \<gamma> randint (svrg_init K p th0 g) t)) =
      map (\<lambda>c. (\<Sum>k<K. svrg_spec_iterate grad_f \<gamma> randint
            (theta_hat (svrg_loop f grad_f full_grad_f K p \<gamma> randint (svrg_init K p th0 g) t))
            (full_grad_f
              (theta_hat (svrg_loop f grad_f full_grad_f K p \<gamma> randint (svrg_init K p th0 g) t)))
            (svrg_rng (svrg_loop f grad_f full_grad_f K p \<gamma> randint (svrg_init K p th0 g) t))
            (Suc k) ! c) / real K) [0..<p]"
    unfolding e(4) e(3) by (rule mean_axis0_map)
  show ?thesis
    unfolding Let_def svrg_loop.simps
    using e(1) e(2) e(3) e(4) e(5) m l'
      svrg_loop_evals [of f grad_f full_grad_f K p \<gamma> randint th0 g T]
    by (simp only: svrg_loop.simps simp_thms)
qed

theorem svrg_epoch_structure_witness:
  "(0::nat) < 2
   \<and> full_grad_evals (svrg_loop (\<lambda>v. 0) (\<lambda>v i. v) (\<lambda>v. [1]) 2 1 (1 / 2) (\<lambda>g::nat. (0, g))
        (svrg_init 2 1 [1] 0) 3) =
      map (\<lambda>t. theta_hat (svrg_loop (\<lambda>v. 0) (\<lambda>v i. v) (\<lambda>v. [1]) 2 1 (1 / 2) (\<lambda>g::nat. (0, g))
        (svrg_init 2 1 [1] 0) t)) [0..<3]
   \<and> theta_hat (svrg_loop (\<lambda>v. 0) (\<lambda>v i. v) (\<lambda>v. [1]) 2 1 (1 / 2) (\<lambda>g::nat. (0, g))
        (svrg_init 2 1 [1] 0) (Suc 0)) = [3 / 8]"
proof -
  have h: "(0::nat) < 2" by simp
  note t = svrg_epoch_structure [OF h, of "\<lambda>v. 0" "\<lambda>v i. v" "\<lambda>v. [1]" 1 "1 / 2"
      "\<lambda>g::nat. (0, g)" "[1]" 0 0 3]
  have a: "full_grad_evals (svrg_loop (\<lambda>v. 0) (\<lambda>v i. v) (\<lambda>v. [1]) 2 1 (1 / 2) (\<lambda>g::nat. (0, g))
        (svrg_init 2 1 [1] 0) 3) =
      map (\<lambda>t. theta_hat (svrg_loop (\<lambda>v. 0) (\<lambda>v i. v) (\<lambda>v. [1]) 2 1 (1 / 2) (\<lambda>g::nat. (0, g))
        (svrg_init 2 1 [1] 0) t)) [0..<3]"
    using t by blast
  have "theta_hat (svrg_loop (\<lambda>v. 0) (\<lambda>v i. v) (\<lambda>v. [1]) 2 1 (1 / 2) (\<lambda>g::nat. (0, g))
        (svrg_init 2 1 [1] 0) (Suc 0)) =
      map (\<lambda>c. (\<Sum>k<2. svrg_spec_iterate (\<lambda>v i. v) (1 / 2) (\<lambda>g::nat. (0, g))
            (theta_hat (svrg_loop (\<lambda>v. 0) (\<lambda>v i. v) (\<lambda>v. [1]) 2 1 (1 / 2) (\<lambda>g::nat. (0, g))
               (svrg_init 2 1 [1] 0) 0))
            [1]
            (svrg_rng (svrg_loop (\<lambda>v. 0) (\<lambda>v i. v) (\<lambda>v. [1]) 2 1 (1 / 2) (\<lambda>g::nat. (0, g))
               (svrg_init 2 1 [1] 0) 0))
            (Suc k) ! c) / real 2) [0..<1]"
    using t unfolding Let_def by blast
  then have b: "theta_hat (svrg_loop (\<lambda>v. 0) (\<lambda>v i. v) (\<lambda>v. [1]) 2 1 (1 / 2) (\<lambda>g::nat. (0, g))
        (svrg_init 2 1 [1] 0) (Suc 0)) = [3 / 8]"
    apply (simp add: svrg_init_def)
    apply (simp add: numeral_2_eq_2 lessThan_Suc)
    apply (simp add: draw_at_def vsub_def vadd_def smul_def Let_def)
    done
  show ?thesis using h a b by blast
qed

subsection \<open>Dot products\<close>

lemma dot_Nil [simp]: "dot [] z = 0" "dot a [] = 0"
  by (simp_all add: dot_def)

lemma dot_Cons [simp]: "dot (x # a) (y # z) = x * y + dot a z"
  by (simp add: dot_def)

lemma dot_append:
  "length a = length v \<Longrightarrow> dot (a @ b) (v @ u) = dot a v + dot b u"
  by (induction a v rule: list_induct2) simp_all

lemma dot_smul_left: "dot (smul c a) z = c * dot a z"
proof (induction a arbitrary: z)
  case Nil
  show ?case by (simp add: smul_def)
next
  case (Cons x a)
  have s: "smul c (x # a) = (c * x) # smul c a" by (simp add: smul_def)
  show ?case using Cons by (cases z) (simp_all add: s algebra_simps)
qed

lemma dot_vsub_left:
  "length a = length b \<Longrightarrow> dot (vsub a b) z = dot a z - dot b z"
proof (induction a b arbitrary: z rule: list_induct2)
  case Nil
  show ?case by (simp add: vsub_def)
next
  case (Cons x a y b)
  have s: "vsub (x # a) (y # b) = (x - y) # vsub a b" by (simp add: vsub_def)
  show ?case using Cons by (cases z) (simp_all add: s algebra_simps)
qed

lemma dot_vneg_right: "dot b (vneg u) = - dot b u"
proof (induction b arbitrary: u)
  case Nil
  show ?case by simp
next
  case (Cons x b)
  show ?case
  proof (cases u)
    case Nil
    then show ?thesis by (simp add: vneg_def)
  next
    case (Cons y u')
    have s: "vneg (y # u') = (- y) # vneg u'" by (simp add: vneg_def)
    show ?thesis using Cons.IH [of u'] by (simp add: Cons s)
  qed
qed

lemma dot_zeros_right [simp]: "dot a (zeros n) = 0"
proof (induction a arbitrary: n)
  case Nil
  show ?case by simp
next
  case (Cons x a)
  show ?case using Cons [of "n - 1"] by (cases n) (simp_all add: zeros_def)
qed

lemma sum_list_delta:
  "i < p \<Longrightarrow> sum_list (map (\<lambda>j. (if i = j then f j else 0)) [0..<p]) = (f i :: real)"
  by (simp add: interv_sum_list_conv_sum_set_nat)

lemma sum_list_delta':
  "i < p \<Longrightarrow> sum_list (map (\<lambda>j. (if j = i then f j else 0)) [0..<p]) = (f i :: real)"
  by (simp add: interv_sum_list_conv_sum_set_nat)

lemma length_identity [simp]: "length (identity p) = p"
  by (simp add: identity_def)

lemma nth_identity [simp]:
  "i < p \<Longrightarrow> identity p ! i = map (\<lambda>j. if i = j then 1 else 0) [0..<p]"
  by (simp add: identity_def)

lemma is_mat_identity: "is_mat p p (identity p)"
  by (simp add: is_mat_def identity_def list_all_length)

lemma dot_unit_left:
  assumes "i < p" "length v = p"
  shows "dot (identity p ! i) v = v ! i"
proof -
  have "dot (identity p ! i) v
      = sum_list (map (\<lambda>j. (identity p ! i) ! j * v ! j) [0..<p])"
    using assms dot_index [of "identity p ! i" v] by simp
  also have "\<dots> = sum_list (map (\<lambda>j. if i = j then v ! j else 0) [0..<p])"
    by (rule sum_list_index_cong) (simp add: assms)
  also have "\<dots> = v ! i" by (rule sum_list_delta [OF assms(1)])
  finally show ?thesis .
qed


text \<open>The three row operations do not change the solutions of the homogeneous system.\<close>

lemma solves_iff: "solves M z \<longleftrightarrow> (\<forall>i<length M. dot (M ! i) z = 0)"
  by (simp add: solves_def list_all_length)

lemma solves_swap:
  "i < length M \<Longrightarrow> j < length M \<Longrightarrow> solves (swap_rows M i j) z \<longleftrightarrow> solves M z"
  by (simp add: solves_def list_all_iff swap_rows_def)

lemma solves_scale:
  assumes "c \<noteq> 0"
  shows "solves (scale_row M k c) z \<longleftrightarrow> solves M z"
proof -
  have "dot (scale_row M k c ! i) z = 0 \<longleftrightarrow> dot (M ! i) z = 0" if "i < length M" for i
    using that assms by (cases "i = k") (simp_all add: scale_row_def dot_smul_left)
  then show ?thesis by (auto simp: solves_iff scale_row_def)
qed

lemma length_eliminate [simp]: "length (eliminate M k) = length M"
  by (simp add: eliminate_def)

lemma nth_eliminate:
  "j < length M \<Longrightarrow>
   eliminate M k ! j = (if j = k then M ! k else vsub (M ! j) (smul (M ! j ! k) (M ! k)))"
  by (simp add: eliminate_def)

lemma solves_eliminate:
  assumes M: "is_mat m w M" and k: "k < m"
  shows "solves (eliminate M k) z \<longleftrightarrow> solves M z"
proof -
  have lM: "length M = m" using M by (rule is_mat_length)
  have row: "dot (eliminate M k ! j) z =
      (if j = k then dot (M ! k) z else dot (M ! j) z - M ! j ! k * dot (M ! k) z)"
    if "j < m" for j
    using that k lM is_mat_row [OF M]
    by (simp add: nth_eliminate dot_vsub_left dot_smul_left)
  show ?thesis
  proof
    assume a: "solves (eliminate M k) z"
    then have kz: "dot (M ! k) z = 0" using row [OF k] k lM by (auto simp: solves_iff)
    show "solves M z" unfolding solves_iff
    proof (intro allI impI)
      fix j assume "j < length M"
      then have j: "j < m" using lM by simp
      have "dot (eliminate M k ! j) z = 0" using a j lM by (simp add: solves_iff)
      then show "dot (M ! j) z = 0" using row [OF j] kz by (simp split: if_splits)
    qed
  next
    assume a: "solves M z"
    show "solves (eliminate M k) z" unfolding solves_iff
    proof (intro allI impI)
      fix j assume "j < length (eliminate M k)"
      then have j: "j < m" using lM by simp
      show "dot (eliminate M k ! j) z = 0"
        using row [OF j] a j k lM by (simp add: solves_iff)
    qed
  qed
qed

subsection \<open>One column of the elimination\<close>

lemma is_mat_iff: "is_mat m w M \<longleftrightarrow> length M = m \<and> (\<forall>i<m. length (M ! i) = w)"
  by (auto simp: is_mat_def list_all_length)

lemma length_swap_rows [simp]: "length (swap_rows M i j) = length M"
  by (simp add: swap_rows_def)

lemma nth_swap_rows:
  "i < length M \<Longrightarrow> j < length M \<Longrightarrow> l < length M \<Longrightarrow>
   swap_rows M i j ! l = (if l = j then M ! i else if l = i then M ! j else M ! l)"
  by (simp add: swap_rows_def nth_list_update)

lemma length_scale_row [simp]: "length (scale_row M k c) = length M"
  by (simp add: scale_row_def)

lemma nth_scale_row:
  "l < length M \<Longrightarrow> scale_row M k c ! l = (if l = k then smul c (M ! k) else M ! l)"
  by (simp add: scale_row_def nth_list_update)

lemma is_mat_swap: "is_mat m w M \<Longrightarrow> i < m \<Longrightarrow> j < m \<Longrightarrow> is_mat m w (swap_rows M i j)"
  by (simp add: is_mat_iff nth_swap_rows)

lemma is_mat_scale: "is_mat m w M \<Longrightarrow> is_mat m w (scale_row M k c)"
  by (simp add: is_mat_iff nth_scale_row)

lemma is_mat_eliminate: "is_mat m w M \<Longrightarrow> k < m \<Longrightarrow> is_mat m w (eliminate M k)"
  by (simp add: is_mat_iff nth_eliminate)

lemma find_pivot_Some:
  "find_pivot M k = Some r \<Longrightarrow> k \<le> r \<and> r < length M \<and> M ! r ! k \<noteq> 0"
  by (auto simp: find_pivot_def find_Some_iff)

lemma find_pivot_None:
  "find_pivot M k = None \<Longrightarrow> k \<le> r \<Longrightarrow> r < length M \<Longrightarrow> M ! r ! k = 0"
  by (auto simp: find_pivot_def find_None_iff)

lemma gj_column_Inr:
  assumes "gj_column M k = Inr M'"
  obtains r where "find_pivot M k = Some r"
    and "M' = eliminate (scale_row (swap_rows M k r) k (1 / swap_rows M k r ! k ! k)) k"
  using assms by (auto simp: gj_column_def Let_def split: option.splits)

lemma gj_column_Inl: "gj_column M k = Inl e \<longleftrightarrow> find_pivot M k = None"
  by (cases e) (auto simp: gj_column_def Let_def split: option.splits)

lemma gj_column_solves:
  assumes M: "is_mat m w M" and k: "k < m" and step: "gj_column M k = Inr M'"
  shows "is_mat m w M'" and "solves M' z \<longleftrightarrow> solves M z"
proof -
  obtain r where piv: "find_pivot M k = Some r"
    and M': "M' = eliminate (scale_row (swap_rows M k r) k (1 / swap_rows M k r ! k ! k)) k"
    using step by (rule gj_column_Inr)
  have lM: "length M = m" using M by (rule is_mat_length)
  have r: "k \<le> r" "r < m" "M ! r ! k \<noteq> 0" using find_pivot_Some [OF piv] lM by simp_all
  define M1 where "M1 = swap_rows M k r"
  have M1: "is_mat m w M1" unfolding M1_def using M k r(2) by (rule is_mat_swap)
  have pk: "M1 ! k ! k = M ! r ! k" using k r lM by (simp add: M1_def nth_swap_rows)
  define c where "c = 1 / M1 ! k ! k"
  have c: "c \<noteq> 0" using r(3) pk by (simp add: c_def)
  define M2 where "M2 = scale_row M1 k c"
  have M2: "is_mat m w M2" unfolding M2_def using M1 by (rule is_mat_scale)
  have M'e: "M' = eliminate M2 k" by (simp add: M' M2_def c_def M1_def)
  show "is_mat m w M'" unfolding M'e using M2 k by (rule is_mat_eliminate)
  have "solves M' z \<longleftrightarrow> solves M2 z" unfolding M'e using M2 k by (rule solves_eliminate)
  also have "\<dots> \<longleftrightarrow> solves M1 z" unfolding M2_def using c by (rule solves_scale)
  also have "\<dots> \<longleftrightarrow> solves M z" unfolding M1_def using k r(2) lM by (simp add: solves_swap)
  finally show "solves M' z \<longleftrightarrow> solves M z" .
qed

lemma reduced_iff:
  "reduced M k \<longleftrightarrow> (\<forall>i<length M. \<forall>c<k. M ! i ! c = (if i = c then 1 else 0))"
  by (simp add: reduced_def list_all_length)

lemma gj_column_reduced:
  assumes M: "is_mat m w M" and k: "k < m" and kw: "k < w"
    and red: "reduced M k" and step: "gj_column M k = Inr M'"
  shows "reduced M' (Suc k)"
proof -
  obtain r where piv: "find_pivot M k = Some r"
    and M': "M' = eliminate (scale_row (swap_rows M k r) k (1 / swap_rows M k r ! k ! k)) k"
    using step by (rule gj_column_Inr)
  have lM: "length M = m" using M by (rule is_mat_length)
  have r: "k \<le> r" "r < m" "M ! r ! k \<noteq> 0" using find_pivot_Some [OF piv] lM by simp_all
  have R: "M ! i ! c = (if i = c then 1 else 0)" if "i < m" "c < k" for i c
    using red that lM by (simp add: reduced_iff)
  define M1 where "M1 = swap_rows M k r"
  have M1: "is_mat m w M1" unfolding M1_def using M k r(2) by (rule is_mat_swap)
  have lM1: "length M1 = m" using M1 by (rule is_mat_length)
  have M1k: "M1 ! k = M ! r" using k r lM by (simp add: M1_def nth_swap_rows)
  have R1: "M1 ! i ! c = (if i = c then 1 else 0)" if "i < m" "c < k" for i c
    using that k r lM R [of i c] R [of k c] R [of r c] by (auto simp: M1_def nth_swap_rows)
  define p where "p = M ! r ! k"
  have p: "p \<noteq> 0" using r(3) by (simp add: p_def)
  define M2 where "M2 = scale_row M1 k (1 / p)"
  have M2: "is_mat m w M2" unfolding M2_def using M1 by (rule is_mat_scale)
  have lM2: "length M2 = m" using M2 by (rule is_mat_length)
  have lrow1: "length (M1 ! i) = w" if "i < m" for i using is_mat_row [OF M1 that] .
  have lrow2: "length (M2 ! i) = w" if "i < m" for i using is_mat_row [OF M2 that] .
  have M2k: "M2 ! k ! c = 1 / p * M ! r ! c" if "c < w" for c
    using that k lM1 lrow1 [OF k] by (simp add: M2_def nth_scale_row M1k [symmetric])
  have M2kk: "M2 ! k ! k = 1" using M2k [OF kw] p by (simp add: p_def)
  have M2kc: "M2 ! k ! c = 0" if "c < k" for c
  proof -
    have "M ! r ! c = 0" using R [OF r(2) that] r(1) that by simp
    then show ?thesis using M2k [of c] that kw by simp
  qed
  have M2j: "M2 ! j = M1 ! j" if "j < m" "j \<noteq> k" for j
    using that lM1 by (simp add: M2_def nth_scale_row)
  have M'e: "M' = eliminate M2 k" by (simp add: M' M2_def p_def M1_def M1k [unfolded M1_def])
  have lM': "length M' = m" using lM2 by (simp add: M'e)
  show ?thesis unfolding reduced_iff lM'
  proof (intro allI impI)
    fix i c assume i: "i < m" and "c < Suc k"
    then have c: "c \<le> k" by simp
    have cw: "c < w" using c kw by simp
    show "M' ! i ! c = (if i = c then 1 else 0)"
    proof (cases "i = k")
      case True
      have "M' ! i = M2 ! k" using True k lM2 by (simp add: M'e nth_eliminate)
      then show ?thesis using True M2kk M2kc [of c] c by (cases "c = k") simp_all
    next
      case False
      have "M' ! i = vsub (M2 ! i) (smul (M2 ! i ! k) (M2 ! k))"
        using False i lM2 by (simp add: M'e nth_eliminate)
      then have e: "M' ! i ! c = M2 ! i ! c - M2 ! i ! k * M2 ! k ! c"
        using cw lrow2 [OF i] lrow2 [OF k] by simp
      show ?thesis
      proof (cases "c = k")
        case True
        then show ?thesis using e M2kk False by simp
      next
        case c': False
        then have ck: "c < k" using c by simp
        have "M2 ! i ! c = (if i = c then 1 else 0)"
          using M2j [OF i False] R1 [OF i ck] by simp
        then show ?thesis using e M2kc [OF ck] by simp
      qed
    qed
  qed
qed

subsection \<open>The column loop\<close>

lemma gj_columns_Inr:
  assumes "is_mat m w M" and "m \<le> w" and "reduced M k" and "k \<le> m"
    and "gj_columns M [k..<m] = Inr M'"
  shows "is_mat m w M' \<and> reduced M' m \<and> (\<forall>z. solves M' z \<longleftrightarrow> solves M z)"
  using assms
proof (induction "m - k" arbitrary: M k)
  case 0
  then show ?case by simp
next
  case (Suc d)
  then have k: "k < m" by simp
  have upt: "[k..<m] = k # [Suc k..<m]" using k by (rule upt_conv_Cons)
  obtain M1 where s1: "gj_column M k = Inr M1" and rest: "gj_columns M1 [Suc k..<m] = Inr M'"
    using Suc.prems(5) unfolding upt by (auto split: sum.splits)
  have kw: "k < w" using k Suc.prems(2) by simp
  have M1: "is_mat m w M1" and sol1: "\<And>z. solves M1 z \<longleftrightarrow> solves M z"
    using gj_column_solves [OF Suc.prems(1) k s1] by simp_all
  have red1: "reduced M1 (Suc k)"
    using gj_column_reduced [OF Suc.prems(1) k kw Suc.prems(3) s1] .
  have d: "d = m - Suc k" using Suc.hyps(2) by simp
  have "is_mat m w M' \<and> reduced M' m \<and> (\<forall>z. solves M' z \<longleftrightarrow> solves M1 z)"
    using Suc.hyps(1) [OF d M1 Suc.prems(2) red1 _ rest] k by simp
  then show ?case using sol1 by simp
qed

lemma gj_columns_Inl:
  assumes "is_mat m w M" and "m \<le> w" and "reduced M k" and "k \<le> m"
    and "gj_columns M [k..<m] = Inl e"
  shows "\<exists>N j. j < m \<and> is_mat m w N \<and> reduced N j \<and> find_pivot N j = None
           \<and> (\<forall>z. solves N z \<longleftrightarrow> solves M z)"
  using assms
proof (induction "m - k" arbitrary: M k)
  case 0
  then show ?case by simp
next
  case (Suc d)
  then have k: "k < m" by simp
  have upt: "[k..<m] = k # [Suc k..<m]" using k by (rule upt_conv_Cons)
  show ?case
  proof (cases "gj_column M k")
    case (Inl e')
    then have "find_pivot M k = None" by (simp add: gj_column_Inl)
    then show ?thesis using k Suc.prems(1,3) by blast
  next
    case (Inr M1)
    then have rest: "gj_columns M1 [Suc k..<m] = Inl e"
      using Suc.prems(5) unfolding upt by simp
    have kw: "k < w" using k Suc.prems(2) by simp
    have M1: "is_mat m w M1" and sol1: "\<And>z. solves M1 z \<longleftrightarrow> solves M z"
      using gj_column_solves [OF Suc.prems(1) k Inr] by simp_all
    have red1: "reduced M1 (Suc k)"
      using gj_column_reduced [OF Suc.prems(1) k kw Suc.prems(3) Inr] .
    have d: "d = m - Suc k" using Suc.hyps(2) by simp
    obtain N j where "j < m" "is_mat m w N" "reduced N j" "find_pivot N j = None"
      "\<forall>z. solves N z \<longleftrightarrow> solves M1 z"
      using Suc.hyps(1) [OF d M1 Suc.prems(2) red1 _ rest] k by auto
    then show ?thesis using sol1 by blast
  qed
qed

lemma no_pivot_kernel:
  assumes M: "is_mat m w M" and mw: "m \<le> w" and k: "k < m"
    and red: "reduced M k" and np: "find_pivot M k = None"
  shows "\<exists>z. length z = w \<and> solves M z \<and> z ! k = - 1 \<and> (\<forall>c. k < c \<longrightarrow> c < w \<longrightarrow> z ! c = 0)"
proof -
  have lM: "length M = m" using M by (rule is_mat_length)
  define z where "z = map (\<lambda>c. if c < k then M ! c ! k else if c = k then - 1 else (0::real)) [0..<w]"
  have lz: "length z = w" by (simp add: z_def)
  have kw: "k < w" using k mw by simp
  have zc: "z ! c = (if c < k then M ! c ! k else if c = k then - 1 else 0)" if "c < w" for c
    using that by (simp add: z_def)
  have "dot (M ! j) z = 0" if j: "j < m" for j
  proof -
    have lr: "length (M ! j) = w" using is_mat_row [OF M j] .
    have R: "M ! j ! c = (if j = c then 1 else 0)" if "c < k" for c
      using red that j lM by (simp add: reduced_iff)
    have "dot (M ! j) z = sum_list (map (\<lambda>c. M ! j ! c * z ! c) [0..<w])"
      using dot_index [of "M ! j" z] lr lz by simp
    also have "\<dots> = sum_list (map (\<lambda>c. (if c = j then (if j < k then M ! j ! k else 0) else 0)
          + (if c = k then - (M ! j ! k) else 0)) [0..<w])"
    proof (rule sum_list_index_cong)
      fix c assume c: "c < w"
      consider "c < k" | "c = k" | "k < c" by linarith
      then show "M ! j ! c * z ! c = (if c = j then (if j < k then M ! j ! k else 0) else 0)
          + (if c = k then - (M ! j ! k) else 0)"
      proof cases
        case 1
        then show ?thesis using zc [OF c] R [OF 1] by auto
      next
        case 2
        then show ?thesis using zc [OF c] by auto
      next
        case 3
        then show ?thesis using zc [OF c] by auto
      qed
    qed
    also have "\<dots> = (if j < k then M ! j ! k else 0) - M ! j ! k"
    proof -
      have jw: "j < w" using j mw by simp
      have a: "sum_list (map (\<lambda>c. if c = j then (if j < k then M ! j ! k else 0) else 0) [0..<w])
          = (if j < k then M ! j ! k else 0)"
        using sum_list_delta' [OF jw, of "\<lambda>c. if j < k then M ! j ! k else 0"] by simp
      have b: "sum_list (map (\<lambda>c. if c = k then - (M ! j ! k) else 0) [0..<w]) = - (M ! j ! k)"
        using sum_list_delta' [OF kw, of "\<lambda>c. - (M ! j ! k)"] by simp
      show ?thesis unfolding sum_list_addf a b by simp
    qed
    also have "\<dots> = 0"
    proof (cases "j < k")
      case True
      then show ?thesis by simp
    next
      case False
      then have "M ! j ! k = 0" using find_pivot_None [OF np, of j] j lM by simp
      then show ?thesis using False by simp
    qed
    finally show ?thesis .
  qed
  then have "solves M z" using lM by (simp add: solves_iff)
  moreover have "z ! k = - 1" using zc [OF kw] by simp
  moreover have "\<forall>c. k < c \<longrightarrow> c < w \<longrightarrow> z ! c = 0" using zc by simp
  ultimately show ?thesis using lz by blast
qed

subsection \<open>The inverse\<close>

lemma nth_augment:
  "is_mat p p A \<Longrightarrow> i < p \<Longrightarrow> map2 (@) A (identity p) ! i = A ! i @ identity p ! i"
  by (simp add: is_mat_iff)

lemma is_mat_augment:
  assumes "is_mat p p A"
  shows "is_mat p (2 * p) (map2 (@) A (identity p))"
proof -
  have "length (map2 (@) A (identity p) ! i) = 2 * p" if "i < p" for i
    using that assms nth_augment [OF assms that] by (simp add: is_mat_iff)
  then show ?thesis using assms by (simp add: is_mat_iff)
qed

lemma reduced_0: "reduced M 0"
  by (simp add: reduced_iff)

lemma mat_vec_eq_iff:
  assumes "length A = p" "length u = p"
  shows "mat_vec A v = u \<longleftrightarrow> (\<forall>i<p. dot (A ! i) v = u ! i)"
  using assms by (auto simp: list_eq_iff_nth_eq)

lemma solves_augment:
  assumes A: "is_mat p p A" and v: "length v = p" and u: "length u = p"
  shows "solves (map2 (@) A (identity p)) (v @ vneg u) \<longleftrightarrow> mat_vec A v = u"
proof -
  have lA: "length A = p" using A by (rule is_mat_length)
  have "dot (map2 (@) A (identity p) ! i) (v @ vneg u) = dot (A ! i) v - u ! i" if "i < p" for i
  proof -
    have "length (A ! i) = length v" using is_mat_row [OF A that] v by simp
    then have "dot (A ! i @ identity p ! i) (v @ vneg u)
        = dot (A ! i) v + dot (identity p ! i) (vneg u)" by (rule dot_append)
    then show ?thesis
      using nth_augment [OF A that] dot_unit_left [OF that u] by (simp add: dot_vneg_right)
  qed
  then show ?thesis
    using lA by (simp add: solves_iff mat_vec_eq_iff [OF lA u])
qed

lemma reduced_take:
  assumes M: "is_mat p w M" and pw: "p \<le> w" and red: "reduced M p" and i: "i < p"
  shows "take p (M ! i) = identity p ! i"
proof (rule nth_equalityI)
  have lr: "length (M ! i) = w" using is_mat_row [OF M i] .
  show "length (take p (M ! i)) = length (identity p ! i)" using lr pw i by simp
  fix c assume "c < length (take p (M ! i))"
  then have c: "c < p" using lr pw by simp
  have "M ! i ! c = (if i = c then 1 else 0)"
    using red i c is_mat_length [OF M] by (simp add: reduced_iff)
  then show "take p (M ! i) ! c = identity p ! i ! c" using c i by simp
qed

lemma solves_final:
  assumes M: "is_mat p (2 * p) M" and red: "reduced M p"
    and v: "length v = p" and u: "length u = p"
  shows "solves M (v @ vneg u) \<longleftrightarrow> v = mat_vec (map (drop p) M) u"
proof -
  have lM: "length M = p" using M by (rule is_mat_length)
  have "dot (M ! i) (v @ vneg u) = v ! i - dot (drop p (M ! i)) u" if "i < p" for i
  proof -
    have t: "take p (M ! i) = identity p ! i"
      using reduced_take [OF M _ red that] by simp
    have e: "dot (M ! i) (v @ vneg u) = dot (identity p ! i @ drop p (M ! i)) (v @ vneg u)"
      by (metis append_take_drop_id t)
    have "length (identity p ! i) = length v" using that v by simp
    then have "dot (identity p ! i @ drop p (M ! i)) (v @ vneg u)
        = dot (identity p ! i) v + dot (drop p (M ! i)) (vneg u)" by (rule dot_append)
    then show ?thesis unfolding e using dot_unit_left [OF that v] by (simp add: dot_vneg_right)
  qed
  moreover have "v = mat_vec (map (drop p) M) u \<longleftrightarrow> (\<forall>i<p. v ! i = dot (drop p (M ! i)) u)"
    using lM v by (auto simp: list_eq_iff_nth_eq)
  ultimately show ?thesis using lM by (simp add: solves_iff)
qed

lemma is_mat_drop:
  assumes "is_mat p (2 * p) M"
  shows "is_mat p p (map (drop p) M)"
  using assms by (simp add: is_mat_iff)

lemma linalg_inv_Inr:
  assumes A: "is_mat p p A" and inv: "linalg_inv A = Inr B"
  shows "is_mat p p B"
    and "length v = p \<Longrightarrow> length u = p \<Longrightarrow> mat_vec A v = u \<longleftrightarrow> v = mat_vec B u"
proof -
  have lA: "length A = p" using A by (rule is_mat_length)
  obtain M where run: "gj_columns (map2 (@) A (identity p)) [0..<p] = Inr M"
    and B: "B = map (drop p) M"
    using inv lA by (auto simp: linalg_inv_def Let_def split: sum.splits)
  have fin: "is_mat p (2 * p) M \<and> reduced M p
      \<and> (\<forall>z. solves M z \<longleftrightarrow> solves (map2 (@) A (identity p)) z)"
    by (rule gj_columns_Inr [OF is_mat_augment [OF A] _ reduced_0 _ run]) simp_all
  show "is_mat p p B" unfolding B using fin by (simp add: is_mat_drop)
  assume v: "length v = p" and u: "length u = p"
  have "mat_vec A v = u \<longleftrightarrow> solves (map2 (@) A (identity p)) (v @ vneg u)"
    using solves_augment [OF A v u] by simp
  also have "\<dots> \<longleftrightarrow> solves M (v @ vneg u)" using fin by simp
  also have "\<dots> \<longleftrightarrow> v = mat_vec B u" unfolding B using fin solves_final [OF _ _ v u] by blast
  finally show "mat_vec A v = u \<longleftrightarrow> v = mat_vec B u" .
qed

lemma linalg_inv_Inl:
  assumes A: "is_mat p p A" and inv: "linalg_inv A = Inl e"
  shows "\<exists>v. length v = p \<and> v \<noteq> zeros p \<and> mat_vec A v = zeros p"
proof -
  have lA: "length A = p" using A by (rule is_mat_length)
  have run: "gj_columns (map2 (@) A (identity p)) [0..<p] = Inl e"
    using inv lA by (auto simp: linalg_inv_def Let_def split: sum.splits)
  obtain N j where j: "j < p" and N: "is_mat p (2 * p) N" and red: "reduced N j"
    and np: "find_pivot N j = None"
    and sol: "\<forall>z. solves N z \<longleftrightarrow> solves (map2 (@) A (identity p)) z"
    using gj_columns_Inl [OF is_mat_augment [OF A] _ reduced_0 _ run] by auto
  obtain z where lz: "length z = 2 * p" and sz: "solves N z" and zj: "z ! j = - 1"
    and z0: "\<forall>c. j < c \<longrightarrow> c < 2 * p \<longrightarrow> z ! c = 0"
    using no_pivot_kernel [OF N _ j red np] by auto
  define v where "v = take p z"
  have lv: "length v = p" using lz by (simp add: v_def)
  have d: "drop p z = vneg (zeros p)"
  proof (rule nth_equalityI)
    show "length (drop p z) = length (vneg (zeros p))" using lz by simp
    fix c assume "c < length (drop p z)"
    then have c: "c < p" using lz by simp
    have "z ! (p + c) = 0" using z0 j c by simp
    then show "drop p z ! c = vneg (zeros p) ! c" using c lz by simp
  qed
  have "z = v @ vneg (zeros p)" using d [symmetric] by (simp add: v_def)
  then have "solves (map2 (@) A (identity p)) (v @ vneg (zeros p))" using sz sol by simp
  then have "mat_vec A v = zeros p" using solves_augment [OF A lv, of "zeros p"] by simp
  moreover have "v ! j = - 1" using zj j lz by (simp add: v_def)
  then have "v \<noteq> zeros p" using j by (metis nth_zeros zero_neq_neg_one)
  ultimately show ?thesis using lv by blast
qed

lemma dot_commute: "dot a b = dot b a"
proof (induction a arbitrary: b)
  case Nil
  show ?case by simp
next
  case (Cons x a)
  show ?case using Cons [of "tl b"] by (cases b) (simp_all add: mult.commute)
qed

lemma dot_vsub_right:
  "length a = length b \<Longrightarrow> dot z (vsub a b) = dot z a - dot z b"
  using dot_vsub_left [of a b z] by (simp add: dot_commute)

lemma is_mat_transp:
  "is_mat n p X \<Longrightarrow> is_mat p n (transposed p X)"
  by (simp add: is_mat_iff)

lemma is_mat_mat_mul:
  "length P = a \<Longrightarrow> is_mat a c (mat_mul c P Q)"
  by (simp add: is_mat_iff mat_mul_def)

lemma nth_mat_mul:
  "i < length P \<Longrightarrow> j < c \<Longrightarrow> mat_mul c P Q ! i ! j = dot (P ! i) (col Q j)"
  by (simp add: mat_mul_def)

lemma mat_vec_assoc:
  assumes P: "is_mat a b P" and Q: "is_mat b c Q" and v: "length v = c"
  shows "mat_vec (mat_mul c P Q) v = mat_vec P (mat_vec Q v)"
proof (rule nth_equalityI)
  have lP: "length P = a" using P by (rule is_mat_length)
  have lQ: "length Q = b" using Q by (rule is_mat_length)
  show "length (mat_vec (mat_mul c P Q) v) = length (mat_vec P (mat_vec Q v))"
    by (simp add: mat_mul_def)
  fix i assume "i < length (mat_vec (mat_mul c P Q) v)"
  then have i: "i < a" using lP by (simp add: mat_mul_def)
  have lPi: "length (P ! i) = b" using is_mat_row [OF P i] .
  have "mat_vec (mat_mul c P Q) v ! i = dot (vec_mat c (P ! i) Q) v"
    using i lP by (simp add: mat_mul_def)
  also have "\<dots> = (\<Sum>j<c. vec_mat c (P ! i) Q ! j * v ! j)"
    using dot_index [of "vec_mat c (P ! i) Q" v] v by (simp add: sum_list_upt_sum)
  also have "\<dots> = (\<Sum>j<c. (\<Sum>k<b. P ! i ! k * Q ! k ! j) * v ! j)"
  proof (rule sum.cong [OF refl])
    fix j assume "j \<in> {..<c}"
    then have j: "j < c" by simp
    have "vec_mat c (P ! i) Q ! j = dot (P ! i) (col Q j)" using j by simp
    also have "\<dots> = (\<Sum>k<b. P ! i ! k * Q ! k ! j)"
      using dot_col(1) [of Q b "P ! i" j] lQ lPi by (simp add: sum_list_upt_sum)
    finally show "vec_mat c (P ! i) Q ! j * v ! j = (\<Sum>k<b. P ! i ! k * Q ! k ! j) * v ! j"
      by simp
  qed
  also have "\<dots> = (\<Sum>j<c. \<Sum>k<b. P ! i ! k * (Q ! k ! j * v ! j))"
    by (simp add: sum_distrib_right mult.assoc)
  also have "\<dots> = (\<Sum>k<b. \<Sum>j<c. P ! i ! k * (Q ! k ! j * v ! j))"
    by (rule sum.swap)
  also have "\<dots> = (\<Sum>k<b. P ! i ! k * dot (Q ! k) v)"
  proof (rule sum.cong [OF refl])
    fix k assume "k \<in> {..<b}"
    then have k: "k < b" by simp
    have "dot (Q ! k) v = (\<Sum>j<c. Q ! k ! j * v ! j)"
      using dot_index [of "Q ! k" v] is_mat_row [OF Q k] v by (simp add: sum_list_upt_sum)
    then show "(\<Sum>j<c. P ! i ! k * (Q ! k ! j * v ! j)) = P ! i ! k * dot (Q ! k) v"
      by (simp add: sum_distrib_left)
  qed
  also have "\<dots> = (\<Sum>k<b. P ! i ! k * mat_vec Q v ! k)"
    by (rule sum.cong [OF refl]) (simp add: lQ)
  also have "\<dots> = dot (P ! i) (mat_vec Q v)"
    using dot_index [of "P ! i" "mat_vec Q v"] lPi lQ by (simp add: sum_list_upt_sum)
  also have "\<dots> = mat_vec P (mat_vec Q v) ! i" using i lP by simp
  finally show "mat_vec (mat_mul c P Q) v ! i = mat_vec P (mat_vec Q v) ! i" .
qed

lemma mat_vec_identity:
  "length v = p \<Longrightarrow> mat_vec (identity p) v = v"
  by (rule nth_equalityI) (simp_all add: dot_unit_left del: nth_identity)


lemma mat_vec_vsub:
  "length u = length v \<Longrightarrow> mat_vec M (vsub u v) = vsub (mat_vec M u) (mat_vec M v)"
  by (rule nth_equalityI) (simp_all add: dot_vsub_right)







subsection \<open>The least-squares minimiser\<close>

lemma gram_is_mat: "is_mat p p (mat_mul p (transposed p X) X)"
  by (rule is_mat_mat_mul) simp














subsection \<open>The theta-update of ADMM\<close>

text \<open>
  For \<open>tau > 0\<close> the matrix \<open>X^T X / n + tau I\<close> is positive definite, so the solve of
  the theta-update never fails; a point where the gradient
  \<open>X^T (X theta - y) / n + tau (theta - rho + u)\<close> of the theta-subproblem vanishes minimises
  it; and what the formula of the update returns is \<open>1/n\<close> times that minimiser.
\<close>

lemma length_sdiv [simp]: "length (sdiv a c) = length a"
  by (simp add: sdiv_def)

lemma nth_sdiv [simp]: "i < length a \<Longrightarrow> sdiv a c ! i = a ! i / c"
  by (simp add: sdiv_def)

lemma dot_vadd_left:
  "length a = length b \<Longrightarrow> dot (vadd a b) z = dot a z + dot b z"
proof (induction a b arbitrary: z rule: list_induct2)
  case Nil
  show ?case by (simp add: vadd_def)
next
  case (Cons x a y b)
  have s: "vadd (x # a) (y # b) = (x + y) # vadd a b" by (simp add: vadd_def)
  show ?case using Cons by (cases z) (simp_all add: s algebra_simps)
qed

lemma dot_vadd_right:
  "length a = length b \<Longrightarrow> dot z (vadd a b) = dot z a + dot z b"
  using dot_vadd_left [of a b z] by (simp add: dot_commute)

lemma dot_smul_right: "dot z (smul c a) = c * dot z a"
  using dot_smul_left [of c a z] by (simp add: dot_commute)

lemma dot_sdiv_left: "dot (sdiv a c) z = dot a z / c"
proof -
  have "sdiv a c = smul (1 / c) a" by (simp add: sdiv_def smul_def)
  then show ?thesis by (simp add: dot_smul_left)
qed

lemma sqnorm_dot: "sqnorm v = dot v v"
  by (induction v) (simp_all add: sqnorm_def power2_eq_square)

lemma dot_self_nonneg: "0 \<le> dot v v"
  by (induction v) simp_all

lemma dot_self_zero: "dot v v = 0 \<Longrightarrow> v = zeros (length v)"
proof (induction v)
  case Nil
  show ?case by (simp add: zeros_def)
next
  case (Cons x v)
  have "x * x + dot v v = 0" using Cons.prems by simp
  moreover have "0 \<le> x * x" by simp
  moreover have "0 \<le> dot v v" by (rule dot_self_nonneg)
  ultimately have "x * x = 0" "dot v v = 0" by linarith+
  then show ?case using Cons.IH by (simp add: zeros_def)
qed

lemma dot_adjoint:
  assumes X: "is_mat n p X" and v: "length v = p" and w: "length w = n"
  shows "dot (mat_vec X v) w = dot v (mat_vec (transposed p X) w)"
proof -
  have lX: "length X = n" using X by (rule is_mat_length)
  have "dot (mat_vec X v) w = (\<Sum>i<n. mat_vec X v ! i * w ! i)"
    using dot_index [of "mat_vec X v" w] lX w by (simp add: sum_list_upt_sum)
  also have "\<dots> = (\<Sum>i<n. (\<Sum>j<p. X ! i ! j * v ! j) * w ! i)"
  proof (rule sum.cong [OF refl])
    fix i assume "i \<in> {..<n}"
    then have i: "i < n" by simp
    have "dot (X ! i) v = (\<Sum>j<p. X ! i ! j * v ! j)"
      using dot_index [of "X ! i" v] is_mat_row [OF X i] v by (simp add: sum_list_upt_sum)
    then show "mat_vec X v ! i * w ! i = (\<Sum>j<p. X ! i ! j * v ! j) * w ! i"
      using i lX by simp
  qed
  also have "\<dots> = (\<Sum>i<n. \<Sum>j<p. v ! j * (X ! i ! j * w ! i))"
  proof (rule sum.cong [OF refl])
    fix i
    have "(\<Sum>j<p. X ! i ! j * v ! j) * w ! i = (\<Sum>j<p. X ! i ! j * v ! j * w ! i)"
      by (rule sum_distrib_right)
    also have "\<dots> = (\<Sum>j<p. v ! j * (X ! i ! j * w ! i))"
      by (rule sum.cong [OF refl]) simp
    finally show "(\<Sum>j<p. X ! i ! j * v ! j) * w ! i = (\<Sum>j<p. v ! j * (X ! i ! j * w ! i))" .
  qed
  also have "\<dots> = (\<Sum>j<p. \<Sum>i<n. v ! j * (X ! i ! j * w ! i))"
    by (rule sum.swap)
  also have "\<dots> = (\<Sum>j<p. v ! j * mat_vec (transposed p X) w ! j)"
  proof (rule sum.cong [OF refl])
    fix j assume "j \<in> {..<p}"
    then have j: "j < p" by simp
    have "dot (col X j) w = (\<Sum>i<n. X ! i ! j * w ! i)"
      using dot_col(2) [of X n w j] lX w by (simp add: sum_list_upt_sum)
    then show "(\<Sum>i<n. v ! j * (X ! i ! j * w ! i)) = v ! j * mat_vec (transposed p X) w ! j"
      using j by (simp add: sum_distrib_left)
  qed
  also have "\<dots> = dot v (mat_vec (transposed p X) w)"
    using dot_index [of v "mat_vec (transposed p X) w"] v by (simp add: sum_list_upt_sum)
  finally show ?thesis .
qed

lemma mat_vec_madd:
  assumes "is_mat a b P" "is_mat a b Q"
  shows "mat_vec (madd P Q) v = vadd (mat_vec P v) (mat_vec Q v)"
proof (rule nth_equalityI)
  have l: "length P = a" "length Q = a" using assms by (simp_all add: is_mat_length)
  show "length (mat_vec (madd P Q) v) = length (vadd (mat_vec P v) (mat_vec Q v))"
    using l by (simp add: madd_def)
  fix i assume "i < length (mat_vec (madd P Q) v)"
  then have i: "i < a" using l by (simp add: madd_def)
  have "length (P ! i) = length (Q ! i)"
    using is_mat_row [OF assms(1) i] is_mat_row [OF assms(2) i] by simp
  then show "mat_vec (madd P Q) v ! i = vadd (mat_vec P v) (mat_vec Q v) ! i"
    using i l by (simp add: madd_def dot_vadd_left)
qed

lemma mat_vec_mdiv: "mat_vec (mdiv P c) v = sdiv (mat_vec P v) c"
  by (rule nth_equalityI) (simp_all add: mdiv_def dot_sdiv_left)

lemma mat_vec_msmul: "mat_vec (msmul c P) v = smul c (mat_vec P v)"
  by (rule nth_equalityI) (simp_all add: msmul_def dot_smul_left)

lemma is_mat_mdiv: "is_mat a b P \<Longrightarrow> is_mat a b (mdiv P c)"
  by (simp add: is_mat_iff mdiv_def)

lemma is_mat_msmul: "is_mat a b P \<Longrightarrow> is_mat a b (msmul c P)"
  by (simp add: is_mat_iff msmul_def)

lemma is_mat_madd: "is_mat a b P \<Longrightarrow> is_mat a b Q \<Longrightarrow> is_mat a b (madd P Q)"
  by (simp add: is_mat_iff madd_def)

lemma sqnorm_vadd:
  "length a = length e \<Longrightarrow> sqnorm (vadd a e) = sqnorm a + 2 * dot a e + sqnorm e"
proof (induction a e rule: list_induct2)
  case Nil
  show ?case by (simp add: vadd_def sqnorm_def)
next
  case (Cons x a y e)
  have s: "vadd (x # a) (y # e) = (x + y) # vadd a e" by (simp add: vadd_def)
  have c: "sqnorm (z # zs) = z ^ 2 + sqnorm zs" for z zs by (simp add: sqnorm_def)
  show ?case using Cons by (simp add: s c power2_eq_square algebra_simps)
qed

lemma sqnorm_nonneg: "0 \<le> sqnorm v"
  by (simp add: sqnorm_dot dot_self_nonneg)

lemma admm_matrix_apply:
  assumes X: "is_mat n p X" and v: "length v = p"
  shows "mat_vec (madd (mdiv (mat_mul p (transposed p X) X) c) (msmul tau (identity p))) v
       = vadd (sdiv (mat_vec (transposed p X) (mat_vec X v)) c) (smul tau v)"
proof -
  let ?G = "mat_mul p (transposed p X) X"
  have G: "is_mat p p ?G" by (rule gram_is_mat)
  have "mat_vec (madd (mdiv ?G c) (msmul tau (identity p))) v
      = vadd (mat_vec (mdiv ?G c) v) (mat_vec (msmul tau (identity p)) v)"
    by (rule mat_vec_madd [OF is_mat_mdiv [OF G] is_mat_msmul [OF is_mat_identity]])
  also have "\<dots> = vadd (sdiv (mat_vec ?G v) c) (smul tau v)"
    by (simp add: mat_vec_mdiv mat_vec_msmul mat_vec_identity [OF v])
  also have "mat_vec ?G v = mat_vec (transposed p X) (mat_vec X v)"
    by (rule mat_vec_assoc [OF is_mat_transp [OF X] X v])
  finally show ?thesis .
qed

lemma admm_matrix_nonsingular:
  assumes X: "is_mat n p X" and n: "0 < n" and tau: "0 < tau"
  shows "\<exists>B. linalg_inv (madd (mdiv (mat_mul p (transposed p X) X) (real n))
                 (msmul tau (identity p))) = Inr B"
proof (cases "linalg_inv (madd (mdiv (mat_mul p (transposed p X) X) (real n))
                 (msmul tau (identity p)))")
  case (Inr B)
  then show ?thesis by blast
next
  case (Inl e)
  let ?A = "madd (mdiv (mat_mul p (transposed p X) X) (real n)) (msmul tau (identity p))"
  have A: "is_mat p p ?A"
    by (rule is_mat_madd [OF is_mat_mdiv [OF gram_is_mat] is_mat_msmul [OF is_mat_identity]])
  obtain v where v: "length v = p" "v \<noteq> zeros p" "mat_vec ?A v = zeros p"
    using linalg_inv_Inl [OF A Inl] by blast
  have lX: "length X = n" using X by (rule is_mat_length)
  have "dot v (mat_vec ?A v) = 0" using v(3) by simp
  moreover have "dot v (mat_vec ?A v)
      = dot (mat_vec X v) (mat_vec X v) / real n + tau * dot v v"
  proof -
    have "dot v (mat_vec ?A v)
        = dot v (sdiv (mat_vec (transposed p X) (mat_vec X v)) (real n)) + dot v (smul tau v)"
      unfolding admm_matrix_apply [OF X v(1)] by (rule dot_vadd_right) (simp add: v(1))
    also have "dot v (sdiv (mat_vec (transposed p X) (mat_vec X v)) (real n))
        = dot v (mat_vec (transposed p X) (mat_vec X v)) / real n"
      using dot_sdiv_left [of "mat_vec (transposed p X) (mat_vec X v)" "real n" v]
      by (simp add: dot_commute)
    also have "dot v (mat_vec (transposed p X) (mat_vec X v)) = dot (mat_vec X v) (mat_vec X v)"
      using dot_adjoint [OF X v(1), of "mat_vec X v"] lX by simp
    finally show ?thesis by (simp add: dot_smul_right)
  qed
  moreover have "0 \<le> dot (mat_vec X v) (mat_vec X v) / real n"
    using dot_self_nonneg [of "mat_vec X v"] by simp
  moreover have "0 \<le> dot v v" by (rule dot_self_nonneg)
  ultimately have "tau * dot v v \<le> 0" by linarith
  then have "dot v v \<le> 0" using tau by (simp add: mult_le_0_iff)
  then have "dot v v = 0" using dot_self_nonneg [of v] by linarith
  then have "v = zeros p" using dot_self_zero [of v] v(1) by simp
  then show ?thesis using v(2) by simp
qed

lemma theta_subproblem_minimiser:
  assumes X: "is_mat n p X" and y: "length y = n" and n: "0 < n" and tau: "0 < tau"
    and rho: "length rho = p" and u: "length u = p"
    and th: "length theta = p" and hat: "length t_hat = p"
    and normal: "vadd (sdiv (mat_vec (transposed p X) (mat_vec X t_hat)) (real n))
                   (smul tau t_hat)
               = vadd (sdiv (mat_vec (transposed p X) y) (real n)) (smul tau (vsub rho u))"
  shows "theta_objective X y tau rho u t_hat + tau / 2 * sqnorm (vsub theta t_hat)
           \<le> theta_objective X y tau rho u theta"
proof -
  have lX: "length X = n" using X by (rule is_mat_length)
  define d where "d = vsub theta t_hat"
  define r where "r = vsub (mat_vec X t_hat) y"
  define c where "c = vadd (vsub t_hat rho) u"
  have ld: "length d = p" and lr: "length r = n" and lc: "length c = p"
    using th hat lX y rho u by (simp_all add: d_def r_def c_def)
  have e1: "vsub (mat_vec X theta) y = vadd r (mat_vec X d)"
  proof (rule nth_equalityI)
    show "length (vsub (mat_vec X theta) y) = length (vadd r (mat_vec X d))"
      using lX y lr by simp
    fix i assume "i < length (vsub (mat_vec X theta) y)"
    then have i: "i < n" using lX y by simp
    have "dot (X ! i) d = dot (X ! i) theta - dot (X ! i) t_hat"
      unfolding d_def by (rule dot_vsub_right) (simp add: th hat)
    then show "vsub (mat_vec X theta) y ! i = vadd r (mat_vec X d) ! i"
      using i lX y by (simp add: r_def)
  qed
  have e2: "vadd (vsub theta rho) u = vadd c d"
    by (rule nth_equalityI) (simp_all add: c_def d_def th hat rho u)
  have g: "sdiv (mat_vec (transposed p X) r) (real n) ! j + tau * c ! j = 0" if j: "j < p" for j
  proof -
    have "mat_vec (transposed p X) r
        = vsub (mat_vec (transposed p X) (mat_vec X t_hat)) (mat_vec (transposed p X) y)"
      unfolding r_def by (rule mat_vec_vsub) (simp add: lX y)
    then have a: "mat_vec (transposed p X) r ! j
        = mat_vec (transposed p X) (mat_vec X t_hat) ! j - mat_vec (transposed p X) y ! j"
      using j by simp
    have "vadd (sdiv (mat_vec (transposed p X) (mat_vec X t_hat)) (real n))
              (smul tau t_hat) ! j
        = vadd (sdiv (mat_vec (transposed p X) y) (real n)) (smul tau (vsub rho u)) ! j"
      using normal by simp
    then have b: "mat_vec (transposed p X) (mat_vec X t_hat) ! j / real n + tau * t_hat ! j
        = mat_vec (transposed p X) y ! j / real n + tau * (rho ! j - u ! j)"
      using j hat rho u by simp
    have cj: "c ! j = t_hat ! j - rho ! j + u ! j" using j hat rho u by (simp add: c_def)
    have a': "mat_vec (transposed p X) r ! j / real n
        = mat_vec (transposed p X) (mat_vec X t_hat) ! j / real n
          - mat_vec (transposed p X) y ! j / real n"
      unfolding a by (rule diff_divide_distrib)
    have b': "mat_vec (transposed p X) (mat_vec X t_hat) ! j / real n + tau * t_hat ! j
        = mat_vec (transposed p X) y ! j / real n + tau * rho ! j - tau * u ! j"
      unfolding b by (simp add: algebra_simps)
    have c': "tau * c ! j = tau * t_hat ! j - tau * rho ! j + tau * u ! j"
      unfolding cj by (simp add: algebra_simps)
    have "sdiv (mat_vec (transposed p X) r) (real n) ! j = mat_vec (transposed p X) r ! j / real n"
      using j by simp
    then show ?thesis using a' b' c' by linarith
  qed
  have cross: "dot r (mat_vec X d) / real n + tau * dot c d = 0"
  proof -
    have "dot r (mat_vec X d) = dot d (mat_vec (transposed p X) r)"
      using dot_adjoint [OF X ld lr] by (simp add: dot_commute)
    then have "dot r (mat_vec X d) / real n + tau * dot c d
        = dot d (vadd (sdiv (mat_vec (transposed p X) r) (real n)) (smul tau c))"
      using dot_vadd_right [of "sdiv (mat_vec (transposed p X) r) (real n)" "smul tau c" d] lc
        dot_sdiv_left [of "mat_vec (transposed p X) r" "real n" d]
      by (simp add: dot_smul_right dot_commute)
    also have "vadd (sdiv (mat_vec (transposed p X) r) (real n)) (smul tau c) = zeros p"
    proof (rule nth_equalityI)
      show "length (vadd (sdiv (mat_vec (transposed p X) r) (real n)) (smul tau c))
          = length (zeros p)" by (simp add: lc)
      fix j assume "j < length (vadd (sdiv (mat_vec (transposed p X) r) (real n)) (smul tau c))"
      then have j: "j < p" by (simp add: lc)
      have "vadd (sdiv (mat_vec (transposed p X) r) (real n)) (smul tau c) ! j
          = sdiv (mat_vec (transposed p X) r) (real n) ! j + tau * c ! j"
        using j lc by (simp del: nth_sdiv)
      then show "vadd (sdiv (mat_vec (transposed p X) r) (real n)) (smul tau c) ! j = zeros p ! j"
        using g [OF j] j by simp
    qed
    finally show ?thesis by simp
  qed
  have o1: "theta_objective X y tau rho u theta
      = 1 / (2 * real n) * (sqnorm r + 2 * dot r (mat_vec X d) + sqnorm (mat_vec X d))
        + tau / 2 * (sqnorm c + 2 * dot c d + sqnorm d)"
    unfolding theta_objective_def e1 e2 lX
    using sqnorm_vadd [of r "mat_vec X d"] sqnorm_vadd [of c d] lr lX lc ld by simp
  have o2: "theta_objective X y tau rho u t_hat
      = 1 / (2 * real n) * sqnorm r + tau / 2 * sqnorm c"
    by (simp add: theta_objective_def r_def c_def lX)
  have "theta_objective X y tau rho u theta - theta_objective X y tau rho u t_hat
      = (dot r (mat_vec X d) / real n + tau * dot c d)
        + (1 / (2 * real n) * sqnorm (mat_vec X d) + tau / 2 * sqnorm d)"
    unfolding o1 o2 using n by (simp add: field_simps)
  moreover have "0 \<le> 1 / (2 * real n) * sqnorm (mat_vec X d)"
    using sqnorm_nonneg [of "mat_vec X d"] n by simp
  ultimately show ?thesis unfolding d_def [symmetric] using cross by linarith
qed

lemma sqnorm_eq_0: "sqnorm v = 0 \<Longrightarrow> v = zeros (length v)"
proof (induction v)
  case Nil
  show ?case by (simp add: zeros_def)
next
  case (Cons x v)
  have "x ^ 2 + sqnorm v = 0" using Cons.prems by (simp add: sqnorm_def)
  moreover have "0 \<le> x ^ 2" "0 \<le> sqnorm v" using sqnorm_nonneg [of v] by simp_all
  ultimately have "x ^ 2 = 0" "sqnorm v = 0" by linarith+
  then show ?case using Cons.IH by (simp add: zeros_def)
qed

lemma sqnorm_vsub_pos:
  assumes "length a = length b" and "a \<noteq> b"
  shows "0 < sqnorm (vsub a b)"
proof (rule ccontr)
  assume "\<not> 0 < sqnorm (vsub a b)"
  then have "sqnorm (vsub a b) = 0" using sqnorm_nonneg [of "vsub a b"] by linarith
  then have z: "vsub a b = zeros (length (vsub a b))" by (rule sqnorm_eq_0)
  have "a = b"
  proof (rule nth_equalityI)
    show "length a = length b" by (rule assms(1))
    fix i assume i: "i < length a"
    have "vsub a b ! i = zeros (length (vsub a b)) ! i" using z by simp
    then show "a ! i = b ! i" using i assms(1) by simp
  qed
  then show False using assms(2) by simp
qed

text \<open>
  Claim C2, as stated, fails: it takes the theta-update formula for the exact minimiser
  of \<open>1/(2n) ||X theta - y||^2 + tau/2 ||theta - rho + u||^2\<close>. For the two data
  \<open>x_1 = x_2 = [1]\<close>, \<open>y = [1, 1]\<close>, with \<open>tau = 1\<close> and \<open>rho = u = [0]\<close>, the formula returns
  \<open>[1/4]\<close>, where the objective is \<open>5/16\<close>, while the objective is \<open>1/4\<close> at \<open>[1/2]\<close>.
\<close>

theorem theta_update_not_minimizer:
  "theta_update 1 [[1], [1]] [1, 1] 1 [0] [0] = Inr [1 / 4]
   \<and> theta_objective [[1], [1]] [1, 1] 1 [0] [0] [1 / 4] = 5 / 16
   \<and> theta_objective [[1], [1]] [1, 1] 1 [0] [0] [1 / 2] = 1 / 4"
proof -
  have a: "theta_update 1 [[1], [1]] [1, 1] 1 [0] [0] = Inr [1 / 4]"
    by (simp add: theta_update_def linalg_inv_def identity_def madd_def mdiv_def msmul_def
        mat_mul_def transposed_def mat_vec_def vec_mat_def col_def dot_def vadd_def vsub_def
        smul_def sdiv_def gj_column_def find_pivot_def swap_rows_def scale_row_def
        eliminate_def Let_def)
  have o: "theta_objective [[1], [1]] [1, 1] 1 [0] [0] [t] = (t - 1) ^ 2 / 2 + t ^ 2 / 2" for t
    by (simp add: theta_objective_def sqnorm_def mat_vec_def dot_def vsub_def vadd_def)
  show ?thesis unfolding o using a by (simp add: power2_eq_square)
qed

text \<open>
  Claim C2, amended. For every \<open>tau > 0\<close>, every \<open>rho\<close> and \<open>u\<close> and \<open>n > 0\<close> data, the matrix
  \<open>X^T X / n + tau I\<close> has an inverse, and the vector
  \<open>(X^T X / n + tau I)^{-1} (X^T y / n + tau (rho - u))\<close>, without a factor \<open>1/n\<close> in front, is
  the exact minimiser over \<open>theta\<close> of \<open>1/(2n) ||X theta - y||^2 + tau/2 ||theta - rho + u||^2\<close>:
  the objective is strictly larger at every other point. The theta-update formula returns
  \<open>1/n\<close> times this minimiser.
\<close>

theorem theta_update_scaled_minimiser:
  assumes "is_mat n p X" and "length y = n" and "0 < n" and "0 < tau"
    and "length rho = p" and "length u = p"
  shows "\<exists>Ainv.
           linalg_inv (madd (mdiv (mat_mul p (transposed p X) X) (real n))
                            (msmul tau (identity p))) = Inr Ainv
         \<and> length (mat_vec Ainv
               (vadd (sdiv (mat_vec (transposed p X) y) (real n)) (smul tau (vsub rho u)))) = p
         \<and> (\<forall>theta. length theta = p
               \<and> theta \<noteq> mat_vec Ainv
                   (vadd (sdiv (mat_vec (transposed p X) y) (real n)) (smul tau (vsub rho u)))
             \<longrightarrow> theta_objective X y tau rho u
                   (mat_vec Ainv
                     (vadd (sdiv (mat_vec (transposed p X) y) (real n)) (smul tau (vsub rho u))))
                 < theta_objective X y tau rho u theta)
         \<and> theta_update p X y tau rho u =
             Inr (smul (1 / real n)
               (mat_vec Ainv
                 (vadd (sdiv (mat_vec (transposed p X) y) (real n)) (smul tau (vsub rho u)))))"
proof -
  let ?A = "madd (mdiv (mat_mul p (transposed p X) X) (real n)) (msmul tau (identity p))"
  let ?b = "vadd (sdiv (mat_vec (transposed p X) y) (real n)) (smul tau (vsub rho u))"
  note X = assms(1) and y = assms(2) and n = assms(3) and tau = assms(4)
    and rho = assms(5) and u = assms(6)
  have lX: "length X = n" using X by (rule is_mat_length)
  have A: "is_mat p p ?A"
    by (rule is_mat_madd [OF is_mat_mdiv [OF gram_is_mat] is_mat_msmul [OF is_mat_identity]])
  obtain B where inv: "linalg_inv ?A = Inr B"
    using admm_matrix_nonsingular [OF X n tau] by blast
  have lB: "length B = p" using linalg_inv_Inr(1) [OF A inv] by (rule is_mat_length)
  have lb: "length ?b = p" using rho u by simp
  define t_hat where "t_hat = mat_vec B ?b"
  have hat: "length t_hat = p" using lB by (simp add: t_hat_def)
  have "mat_vec ?A t_hat = ?b"
    using linalg_inv_Inr(2) [OF A inv hat lb] by (simp add: t_hat_def)
  then have normal: "vadd (sdiv (mat_vec (transposed p X) (mat_vec X t_hat)) (real n))
        (smul tau t_hat) = ?b"
    using admm_matrix_apply [OF X hat, of "real n" tau] by simp
  have min: "theta_objective X y tau rho u t_hat < theta_objective X y tau rho u theta"
    if th: "length theta = p" and ne: "theta \<noteq> t_hat" for theta
  proof -
    have "theta_objective X y tau rho u t_hat + tau / 2 * sqnorm (vsub theta t_hat)
        \<le> theta_objective X y tau rho u theta"
      by (rule theta_subproblem_minimiser [OF X y n tau rho u th hat normal])
    moreover have "0 < tau / 2 * sqnorm (vsub theta t_hat)"
      using sqnorm_vsub_pos [of theta t_hat] th hat ne tau by simp
    ultimately show ?thesis by linarith
  qed
  have upd: "theta_update p X y tau rho u = Inr (smul (1 / real n) t_hat)"
    by (simp add: theta_update_def Let_def lX inv t_hat_def)
  show ?thesis
  proof (rule exI [of _ B], intro conjI allI impI)
    show "linalg_inv ?A = Inr B" by (rule inv)
    show "length (mat_vec B ?b) = p" using hat unfolding t_hat_def .
    show "theta_objective X y tau rho u (mat_vec B ?b) < theta_objective X y tau rho u theta"
      if "length theta = p \<and> theta \<noteq> mat_vec B ?b" for theta
      using min [of theta] that unfolding t_hat_def by simp
    show "theta_update p X y tau rho u = Inr (smul (1 / real n) (mat_vec B ?b))"
      using upd unfolding t_hat_def .
  qed
qed

theorem theta_update_scaled_minimiser_witness:
  "is_mat 2 1 [[1], [1]] \<and> length [1, 1 :: real] = 2 \<and> (0 :: nat) < 2 \<and> (0 :: real) < 1
   \<and> length [0 :: real] = 1
   \<and> linalg_inv (madd (mdiv (mat_mul 1 (transposed 1 [[1], [1]]) [[1], [1]]) (real 2))
                       (msmul 1 (identity 1))) = Inr [[1 / 2]]
   \<and> theta_objective [[1], [1]] [1, 1] 1 [0] [0] [1 / 2]
       < theta_objective [[1], [1]] [1, 1] 1 [0] [0] [1 / 4]
   \<and> theta_update 1 [[1], [1]] [1, 1] 1 [0] [0] = Inr (smul (1 / real 2) [1 / 2])"
proof -
  have h1: "is_mat 2 1 [[1], [1]]" by (simp add: is_mat_def)
  have h2: "length [1, 1 :: real] = 2" by simp
  have h3: "(0 :: nat) < 2" by simp
  have h4: "(0 :: real) < 1" by simp
  have h5: "length [0 :: real] = 1" by simp
  have i: "linalg_inv (madd (mdiv (mat_mul 1 (transposed 1 [[1], [1]]) [[1], [1]]) (real 2))
                       (msmul 1 (identity 1))) = Inr [[1 / 2]]"
    by (simp add: linalg_inv_def identity_def madd_def mdiv_def msmul_def
        mat_mul_def transposed_def vec_mat_def col_def dot_def vadd_def
        smul_def sdiv_def gj_column_def find_pivot_def swap_rows_def scale_row_def
        eliminate_def Let_def)
  have b: "mat_vec [[1 / 2]]
      (vadd (sdiv (mat_vec (transposed 1 [[1], [1]]) [1, 1]) (real 2)) (smul 1 (vsub [0] [0])))
      = [1 / 2]"
    by (simp add: transposed_def mat_vec_def col_def dot_def vadd_def vsub_def smul_def sdiv_def)
  have ne: "length [1 / 4 :: real] = 1 \<and> [1 / 4 :: real] \<noteq> [1 / 2]" by simp
  obtain Ainv where t1: "linalg_inv (madd (mdiv (mat_mul 1 (transposed 1 [[1], [1]]) [[1], [1]])
        (real 2)) (msmul 1 (identity 1))) = Inr Ainv"
    and t2: "\<forall>theta. length theta = 1
               \<and> theta \<noteq> mat_vec Ainv
                   (vadd (sdiv (mat_vec (transposed 1 [[1], [1]]) [1, 1]) (real 2))
                      (smul 1 (vsub [0] [0])))
             \<longrightarrow> theta_objective [[1], [1]] [1, 1] 1 [0] [0]
                   (mat_vec Ainv
                     (vadd (sdiv (mat_vec (transposed 1 [[1], [1]]) [1, 1]) (real 2))
                        (smul 1 (vsub [0] [0]))))
                 < theta_objective [[1], [1]] [1, 1] 1 [0] [0] theta"
    and t3: "theta_update 1 [[1], [1]] [1, 1] 1 [0] [0] =
             Inr (smul (1 / real 2)
               (mat_vec Ainv
                 (vadd (sdiv (mat_vec (transposed 1 [[1], [1]]) [1, 1]) (real 2))
                    (smul 1 (vsub [0] [0])))))"
    using theta_update_scaled_minimiser [OF h1 h2 h3 h4 h5 h5] by (elim exE conjE)
  have A: "Ainv = [[1 / 2]]" using t1 unfolding i by simp
  have m: "theta_objective [[1], [1]] [1, 1] 1 [0] [0] [1 / 2]
       < theta_objective [[1], [1]] [1, 1] 1 [0] [0] [1 / 4]"
    using t2 [unfolded A b, rule_format, OF ne] .
  have e: "theta_update 1 [[1], [1]] [1, 1] 1 [0] [0] = Inr (smul (1 / real 2) [1 / 2])"
    using t3 unfolding A b .
  show ?thesis using h1 h2 h3 h4 h5 i m e by blast
qed

end
